theory Spec2Isabelle
  imports Complex_Main "HOL-Library.Word"
begin

unbundle bit_operations_syntax

section \<open>Gyroscope calibration (gyro\_cal.c)\<close>

text \<open>
  Single-precision values are modelled by the real number they denote. The functions
  below only copy, compare and (in two places) subtract or multiply such values; the
  order on finite floats is the order on the reals. \<open>uint64_t\<close> time stamps are
  \<open>64 word\<close>, so sums of time stamps wrap as they do in C. The code is taken as
  compiled without \<open>GYRO_CAL_DBG_ENABLED\<close>: the debug counters and log calls, which
  change no field modelled here, are left out.
\<close>

type_synonym float = real
type_synonym u64 = "64 word"
type_synonym u32 = "32 word"
type_synonym u16 = "16 word"

text \<open>\<open>#define MAX_GYRO_BIAS (0.1f)\<close>, in rad/sec.\<close>

definition MAX_GYRO_BIAS :: float where
  "MAX_GYRO_BIAS = 0.1"

definition FLT_MAX :: float where
  "FLT_MAX = 340282346638528859811704183484516925440"

text \<open>
  \<open>struct GyroStillDet\<close> is declared in gyro\_stillness\_detect.h; these are the
  fields that gyro\_cal.c reads or writes.
\<close>

record GyroStillDet =
  stillness_window_ready :: bool
  stillness_confidence_det :: float
  prev_stillness_confidence :: float
  prev_mean_x :: float
  prev_mean_y :: float
  prev_mean_z :: float
  win_mean_x :: float
  win_mean_y :: float
  win_mean_z :: float
  window_start_time :: u64
  last_sample_time :: u64

record GyroCal =
  accel_stillness_detect :: GyroStillDet
  gyro_stillness_detect :: GyroStillDet
  mag_stillness_detect :: GyroStillDet
  bias_x :: float
  bias_y :: float
  bias_z :: float
  bias_temperature_celsius :: float
  calibration_time_nanos :: u64
  stillness_confidence :: float
  new_gyro_cal_available :: bool
  prev_still :: bool
  start_still_time_nanos :: u64
  stillness_win_endtime_nanos :: u64
  gyro_watchdog_start_nanos :: u64
  gyro_watchdog_timeout_duration_nanos :: u64
  gyro_watchdog_timeout :: bool
  using_mag_sensor :: bool
  gyro_calibration_enable :: bool
  min_still_duration_nanos :: u64
  max_still_duration_nanos :: u64
  window_time_duration_nanos :: u64
  stillness_threshold :: float
  stillness_mean_delta_limit :: float
  temperature_delta_limit_celsius :: float
  temperature_mean_celsius :: float
  temperature_min_max_celsius :: "float \<times> float"
  gyro_winmean_min :: "float \<times> float \<times> float"
  gyro_winmean_max :: "float \<times> float \<times> float"

text \<open>The state left by \<open>memset(gyro_cal, 0, sizeof(struct GyroCal))\<close> in gyroCalInit.\<close>

definition zeroed_GyroStillDet :: GyroStillDet where
  "zeroed_GyroStillDet = \<lparr> stillness_window_ready = False, stillness_confidence_det = 0,
     prev_stillness_confidence = 0, prev_mean_x = 0, prev_mean_y = 0, prev_mean_z = 0,
     win_mean_x = 0, win_mean_y = 0, win_mean_z = 0, window_start_time = 0,
     last_sample_time = 0 \<rparr>"

definition zeroed_GyroCal :: GyroCal where
  "zeroed_GyroCal = \<lparr> accel_stillness_detect = zeroed_GyroStillDet,
     gyro_stillness_detect = zeroed_GyroStillDet, mag_stillness_detect = zeroed_GyroStillDet,
     bias_x = 0, bias_y = 0, bias_z = 0, bias_temperature_celsius = 0,
     calibration_time_nanos = 0, stillness_confidence = 0, new_gyro_cal_available = False,
     prev_still = False, start_still_time_nanos = 0, stillness_win_endtime_nanos = 0,
     gyro_watchdog_start_nanos = 0, gyro_watchdog_timeout_duration_nanos = 0,
     gyro_watchdog_timeout = False, using_mag_sensor = False,
     gyro_calibration_enable = False, min_still_duration_nanos = 0,
     max_still_duration_nanos = 0, window_time_duration_nanos = 0, stillness_threshold = 0,
     stillness_mean_delta_limit = 0, temperature_delta_limit_celsius = 0,
     temperature_mean_celsius = 0, temperature_min_max_celsius = (0, 0),
     gyro_winmean_min = (0, 0, 0), gyro_winmean_max = (0, 0, 0) \<rparr>"

subsection \<open>gyroCalRemoveBias\<close>

text \<open>
  The C function returns through three pointers \<open>xo\<close>, \<open>yo\<close>, \<open>zo\<close>. The model takes
  the contents of those three locations before the call as \<open>out\<close> and returns their
  contents after it. The inputs are passed by value, so a caller that passes the
  addresses of its own \<open>x\<close>, \<open>y\<close>, \<open>z\<close> is the case \<open>out = (xi, yi, zi)\<close>.
\<close>

definition gyroCalRemoveBias ::
  "GyroCal \<Rightarrow> float \<Rightarrow> float \<Rightarrow> float \<Rightarrow> float \<times> float \<times> float \<Rightarrow> float \<times> float \<times> float" where
  "gyroCalRemoveBias gyro_cal xi yi zi out =
     (if gyro_calibration_enable gyro_cal
      then (xi - bias_x gyro_cal, yi - bias_y gyro_cal, zi - bias_z gyro_cal)
      else out)"

subsection \<open>computeGyroCal\<close>

definition computeGyroCal :: "GyroCal \<Rightarrow> u64 \<Rightarrow> GyroCal" where
  "computeGyroCal gyro_cal calibration_time =
     (if \<not> (prev_mean_x (gyro_stillness_detect gyro_cal) < MAX_GYRO_BIAS \<and>
             prev_mean_x (gyro_stillness_detect gyro_cal) > - MAX_GYRO_BIAS \<and>
             prev_mean_y (gyro_stillness_detect gyro_cal) < MAX_GYRO_BIAS \<and>
             prev_mean_y (gyro_stillness_detect gyro_cal) > - MAX_GYRO_BIAS \<and>
             prev_mean_z (gyro_stillness_detect gyro_cal) < MAX_GYRO_BIAS \<and>
             prev_mean_z (gyro_stillness_detect gyro_cal) > - MAX_GYRO_BIAS)
      then gyro_cal
      else gyro_cal
        \<lparr> bias_x := prev_mean_x (gyro_stillness_detect gyro_cal),
          bias_y := prev_mean_y (gyro_stillness_detect gyro_cal),
          bias_z := prev_mean_z (gyro_stillness_detect gyro_cal),
          bias_temperature_celsius := temperature_mean_celsius gyro_cal,
          calibration_time_nanos := calibration_time,
          stillness_confidence :=
            prev_stillness_confidence (gyro_stillness_detect gyro_cal) *
            prev_stillness_confidence (accel_stillness_detect gyro_cal) *
            prev_stillness_confidence (mag_stillness_detect gyro_cal),
          new_gyro_cal_available := True \<rparr>)"

subsection \<open>The data trackers and their function-local statics\<close>

datatype GyroCalTrackerCommand = DO_RESET | DO_UPDATE_DATA | DO_STORE_DATA | DO_EVALUATE

text \<open>
  The \<open>static\<close> locals of gyroTemperatureStatsTracker. \<open>num_points\<close> is a
  \<open>size_t\<close>, 32 bits wide on the Cortex-M targets of this firmware.
\<close>

record TemperatureStatics =
  mean_accumulator :: float
  static_temperature_min_max_celsius :: "float \<times> float"
  num_points :: u32

text \<open>The \<open>static\<close> locals of gyroStillMeanTracker.\<close>

record MeanStatics =
  static_gyro_winmean_min :: "float \<times> float \<times> float"
  static_gyro_winmean_max :: "float \<times> float \<times> float"

fun gyroTemperatureStatsTracker ::
  "GyroCal \<Rightarrow> TemperatureStatics \<Rightarrow> float \<Rightarrow> GyroCalTrackerCommand
     \<Rightarrow> bool \<times> GyroCal \<times> TemperatureStatics" where
  "gyroTemperatureStatsTracker gyro_cal st temperature_celsius DO_RESET =
     (False, gyro_cal,
      st \<lparr> num_points := 0, mean_accumulator := 0,
           static_temperature_min_max_celsius := (FLT_MAX, - 1 * (FLT_MAX - 1)) \<rparr>)"
| "gyroTemperatureStatsTracker gyro_cal st temperature_celsius DO_UPDATE_DATA =
     (let st1 = st \<lparr> mean_accumulator := mean_accumulator st + temperature_celsius,
                      num_points := num_points st + 1 \<rparr>;
          (lo, hi) = static_temperature_min_max_celsius st1;
          lo' = (if lo > temperature_celsius then temperature_celsius else lo);
          hi' = (if hi < temperature_celsius then temperature_celsius else hi)
      in (False, gyro_cal, st1 \<lparr> static_temperature_min_max_celsius := (lo', hi') \<rparr>))"
| "gyroTemperatureStatsTracker gyro_cal st temperature_celsius DO_STORE_DATA =
     (if num_points st > 0
      then (False,
            gyro_cal \<lparr> temperature_min_max_celsius := static_temperature_min_max_celsius st,
                       temperature_mean_celsius := mean_accumulator st / real (unat (num_points st)) \<rparr>,
            st)
      else (False, gyro_cal, st))"
| "gyroTemperatureStatsTracker gyro_cal st temperature_celsius DO_EVALUATE =
     (if num_points st > 0
      then (snd (static_temperature_min_max_celsius st) - fst (static_temperature_min_max_celsius st)
              > temperature_delta_limit_celsius gyro_cal, gyro_cal, st)
      else (False, gyro_cal, st))"

fun gyroStillMeanTracker ::
  "GyroCal \<Rightarrow> MeanStatics \<Rightarrow> GyroCalTrackerCommand \<Rightarrow> bool \<times> GyroCal \<times> MeanStatics" where
  "gyroStillMeanTracker gyro_cal st DO_RESET =
     (False, gyro_cal,
      st \<lparr> static_gyro_winmean_min := (FLT_MAX, FLT_MAX, FLT_MAX),
           static_gyro_winmean_max :=
             (- 1 * (FLT_MAX - 1), - 1 * (FLT_MAX - 1), - 1 * (FLT_MAX - 1)) \<rparr>)"
| "gyroStillMeanTracker gyro_cal st DO_UPDATE_DATA =
     (let (n0, n1, n2) = static_gyro_winmean_min st;
          (x0, x1, x2) = static_gyro_winmean_max st;
          g = gyro_stillness_detect gyro_cal
      in (False, gyro_cal,
          st \<lparr> static_gyro_winmean_min :=
                 (if n0 > win_mean_x g then win_mean_x g else n0,
                  if n1 > win_mean_y g then win_mean_y g else n1,
                  if n2 > win_mean_z g then win_mean_z g else n2),
               static_gyro_winmean_max :=
                 (if x0 < win_mean_x g then win_mean_x g else x0,
                  if x1 < win_mean_y g then win_mean_y g else x1,
                  if x2 < win_mean_z g then win_mean_z g else x2) \<rparr>))"
| "gyroStillMeanTracker gyro_cal st DO_STORE_DATA =
     (False,
      gyro_cal \<lparr> gyro_winmean_min := static_gyro_winmean_min st,
                 gyro_winmean_max := static_gyro_winmean_max st \<rparr>,
      st)"
| "gyroStillMeanTracker gyro_cal st DO_EVALUATE =
     (let (n0, n1, n2) = static_gyro_winmean_min st;
          (x0, x1, x2) = static_gyro_winmean_max st
      in (x0 - n0 > stillness_mean_delta_limit gyro_cal \<or>
          x1 - n1 > stillness_mean_delta_limit gyro_cal \<or>
          x2 - n2 > stillness_mean_delta_limit gyro_cal, gyro_cal, st))"

subsection \<open>checkWatchdog\<close>

text \<open>
  gyroStillDetReset is defined in gyro\_stillness\_detect.c, outside this development; it is
  the parameter \<open>gyroStillDetReset\<close>, taking the \<open>reset_stats\<close> flag and the detector.
  The statics of the two trackers are passed and returned next to the \<open>GyroCal\<close>.
\<close>

definition checkWatchdog ::
  "(bool \<Rightarrow> GyroStillDet \<Rightarrow> GyroStillDet) \<Rightarrow> GyroCal \<Rightarrow> TemperatureStatics \<Rightarrow> MeanStatics
     \<Rightarrow> u64 \<Rightarrow> GyroCal \<times> TemperatureStatics \<times> MeanStatics" where
  "checkWatchdog gyroStillDetReset gyro_cal ts ms sample_time_nanos =
     (if gyro_watchdog_start_nanos gyro_cal \<le> 0 then (gyro_cal, ts, ms)
      else
        let watchdog_timeout =
              (sample_time_nanos >
                 gyro_watchdog_timeout_duration_nanos gyro_cal + gyro_watchdog_start_nanos gyro_cal)
        in if watchdog_timeout then
             let g1 = gyro_cal
                   \<lparr> accel_stillness_detect :=
                       gyroStillDetReset True (accel_stillness_detect gyro_cal) \<rparr>;
                 g2 = g1 \<lparr> gyro_stillness_detect :=
                            gyroStillDetReset True (gyro_stillness_detect g1) \<rparr>;
                 g3 = g2 \<lparr> mag_stillness_detect :=
                            gyroStillDetReset True (mag_stillness_detect g2) \<rparr>;
                 (_, g4, ts') = gyroTemperatureStatsTracker g3 ts 0 DO_RESET;
                 (_, g5, ms') = gyroStillMeanTracker g4 ms DO_RESET;
                 g6 = g5 \<lparr> stillness_win_endtime_nanos := 0 \<rparr>;
                 g7 = g6 \<lparr> accel_stillness_detect :=
                            (accel_stillness_detect g6) \<lparr> prev_stillness_confidence := 0 \<rparr> \<rparr>;
                 g8 = g7 \<lparr> gyro_stillness_detect :=
                            (gyro_stillness_detect g7) \<lparr> prev_stillness_confidence := 0 \<rparr> \<rparr>;
                 g9 = g8 \<lparr> mag_stillness_detect :=
                            (mag_stillness_detect g8) \<lparr> prev_stillness_confidence := 0 \<rparr> \<rparr>;
                 g10 = g9 \<lparr> stillness_confidence := 0 \<rparr>;
                 g11 = g10 \<lparr> prev_still := False \<rparr>;
                 g12 = (if \<not> stillness_window_ready (mag_stillness_detect g11) \<and>
                           using_mag_sensor g11
                        then g11 \<lparr> using_mag_sensor := False \<rparr> else g11);
                 g13 = g12 \<lparr> gyro_watchdog_timeout :=
                               (gyro_watchdog_timeout g12 \<or> watchdog_timeout) \<rparr>
             in (g13 \<lparr> gyro_watchdog_start_nanos := 0 \<rparr>, ts', ms')
           else (gyro_cal, ts, ms))"

section \<open>Event dispatch kernel (seos.c)\<close>

subsection \<open>Tasks and task ids\<close>

text \<open>
  \<open>subbedEvents\<close> is a pointer that is NULL, or points at the task's embedded array
  \<open>subbedEventsInt\<close>, or at a heap chunk. The model keeps the pointer's target and the
  contents of the buffer it points to in one value.
\<close>

datatype EvtList = NullList | EmbeddedList "u32 list" | HeapList "u32 list"

fun list_of :: "EvtList \<Rightarrow> u32 list" where
  "list_of NullList = []"
| "list_of (EmbeddedList xs) = xs"
| "list_of (HeapList xs) = xs"

fun list_upd :: "EvtList \<Rightarrow> nat \<Rightarrow> u32 \<Rightarrow> EvtList" where
  "list_upd NullList i v = NullList"
| "list_upd (EmbeddedList xs) i v = EmbeddedList (xs[i := v])"
| "list_upd (HeapList xs) i v = HeapList (xs[i := v])"

record Task =
  tid :: u32
  subbedEvtCount :: u16
  subbedEvtListSz :: u16
  subbedEvents :: EvtList

text \<open>
  osTaskFindByTid scans \<open>mTasks[0 .. mTaskCnt)\<close>, here the list of those entries, and
  returns the index of the first entry with that non-zero tid (\<open>None\<close> for NULL).
\<close>

fun osTaskFindByTid :: "Task list \<Rightarrow> u32 \<Rightarrow> nat option" where
  "osTaskFindByTid [] t = None"
| "osTaskFindByTid (x # xs) t =
     (if tid x \<noteq> 0 \<and> tid x = t then Some 0 else map_option Suc (osTaskFindByTid xs t))"

text \<open>
  One pass of the body of the \<open>do \<dots> while\<close> in osGetFreeTid. FIRST\_VALID\_TID and
  LAST\_VALID\_TID come from seos.h and are the parameters \<open>first_tid\<close> and \<open>last_tid\<close>.
\<close>

definition nextTid :: "u32 \<Rightarrow> u32 \<Rightarrow> u32 \<Rightarrow> u32" where
  "nextTid first_tid last_tid n = (if n = last_tid then first_tid else n + 1)"

text \<open>
  The loop of osGetFreeTid on the counter \<open>mNextTidInfo\<close>, whose value is \<open>n\<close>
  when osGetFreeTid is called. The result is the value that the loop leaves in the counter
  and that osGetFreeTid returns; \<open>None\<close> is the loop that never ends.
\<close>

partial_function (option) osGetFreeTid :: "u32 \<Rightarrow> u32 \<Rightarrow> Task list \<Rightarrow> u32 \<Rightarrow> u32 option" where
  "osGetFreeTid first_tid last_tid tasks n =
     (let n' = nextTid first_tid last_tid n
      in if osTaskFindByTid tasks n' \<noteq> None then osGetFreeTid first_tid last_tid tasks n'
         else Some n')"

text \<open>
  The number of passes of that loop body that take the counter from \<open>n\<close> to the tid
  \<open>f\<close> of the range, going up from \<open>n\<close> and wrapping; it is the measure of the
  termination proof.
\<close>

definition tidDistance :: "u32 \<Rightarrow> u32 \<Rightarrow> u32 \<Rightarrow> u32 \<Rightarrow> nat" where
  "tidDistance first_tid last_tid f n =
     (if f \<le> n \<and> n \<le> last_tid
      then unat last_tid - unat n + 1 + (unat f - unat first_tid)
      else unat (f - n))"

subsection \<open>Subscription lists\<close>

definition EVT_SUBSCRIBE_TO_EVT :: u32 where "EVT_SUBSCRIBE_TO_EVT = 0"
definition EVT_UNSUBSCRIBE_TO_EVT :: u32 where "EVT_UNSUBSCRIBE_TO_EVT = 1"
definition EVT_DEFERRED_CALLBACK :: u32 where "EVT_DEFERRED_CALLBACK = 2"
definition EVT_PRIVATE_EVT :: u32 where "EVT_PRIVATE_EVT = 3"

text \<open>
  \<open>for (i = 0; i < count && events[i] != evt; i++);\<close> started at \<open>i\<close>; the result is
  the final \<open>i\<close>.
\<close>

function subbedEvtFind :: "u32 list \<Rightarrow> nat \<Rightarrow> u32 \<Rightarrow> nat \<Rightarrow> nat" where
  "subbedEvtFind events count evt i =
     (if i < count \<and> events ! i \<noteq> evt then subbedEvtFind events count evt (i + 1) else i)"
  by pat_completeness auto
termination
  by (relation "measure (\<lambda>(events, count, evt, i). count - i)") auto

declare subbedEvtFind.simps [simp del]

text \<open>
  The subscribe/unsubscribe case of osInternalEvtHandle once the task is found.
  \<open>alloc_ok\<close> says whether heapAlloc returns a chunk, should this action call it; the
  words of a fresh chunk that memcpy does not fill are written as 0 (they lie at indices
  from \<open>subbedEvtListSz\<close> on and are not read before they are assigned).
\<close>

definition evtSubHandle :: "bool \<Rightarrow> u32 \<Rightarrow> u32 \<Rightarrow> Task \<Rightarrow> Task" where
  "evtSubHandle alloc_ok evtType evt task =
     (let i = subbedEvtFind (list_of (subbedEvents task)) (unat (subbedEvtCount task)) evt 0
      in if evtType = EVT_UNSUBSCRIBE_TO_EVT \<and> i \<noteq> unat (subbedEvtCount task) then
           let count' = subbedEvtCount task - 1
           in task \<lparr> subbedEvtCount := count',
                     subbedEvents := list_upd (subbedEvents task) i
                                       (list_of (subbedEvents task) ! unat count') \<rparr>
         else if evtType = EVT_SUBSCRIBE_TO_EVT \<and> i = unat (subbedEvtCount task) then
           let task1 =
                 (if subbedEvtListSz task = subbedEvtCount task then
                    let newSz = (ucast (subbedEvtListSz task) * 3 + 1) div 2 :: u32
                    in if alloc_ok then
                         task \<lparr> subbedEvents :=
                                  HeapList (take (unat (subbedEvtListSz task))
                                              (list_of (subbedEvents task)) @
                                            replicate (unat newSz - unat (subbedEvtListSz task)) 0),
                                subbedEvtListSz := ucast newSz \<rparr>
                       else task
                  else task)
           in if subbedEvtListSz task1 > subbedEvtCount task1 then
                task1 \<lparr> subbedEvents := list_upd (subbedEvents task1)
                                          (unat (subbedEvtCount task1)) evt,
                        subbedEvtCount := subbedEvtCount task1 + 1 \<rparr>
              else task1
         else task)"

text \<open>The event types a task is subscribed to: the first \<open>subbedEvtCount\<close> entries.\<close>

definition subscribed :: "Task \<Rightarrow> u32 list" where
  "subscribed task = take (unat (subbedEvtCount task)) (list_of (subbedEvents task))"

text \<open>
  The fields of a started task fit together: the count is within the recorded capacity,
  the capacity is positive and within the buffer, and the buffer exists.
\<close>

definition task_ok :: "Task \<Rightarrow> bool" where
  "task_ok task =
     (subbedEvents task \<noteq> NullList \<and>
      unat (subbedEvtCount task) \<le> unat (subbedEvtListSz task) \<and>
      0 < unat (subbedEvtListSz task) \<and>
      unat (subbedEvtListSz task) \<le> length (list_of (subbedEvents task)))"

subsection \<open>Free-info, retention and the code the kernel calls\<close>

text \<open>
  Modelled from the spec: the TaggedPtr type and its accessors taggedPtrIsPtr,
  taggedPtrIsUint, taggedPtrToPtr and taggedPtrToUint are declared outside seos.c. One
  word carries either a function pointer or an unsigned task id, and zero in either form
  means that there is no free action.
\<close>

datatype TaggedPtr = TagPtr u32 | TagUint u32

fun taggedPtrIsPtr :: "TaggedPtr \<Rightarrow> bool" where
  "taggedPtrIsPtr (TagPtr p) = True"
| "taggedPtrIsPtr (TagUint u) = False"

fun taggedPtrIsUint :: "TaggedPtr \<Rightarrow> bool" where
  "taggedPtrIsUint (TagPtr p) = False"
| "taggedPtrIsUint (TagUint u) = True"

fun taggedPtrToPtr :: "TaggedPtr \<Rightarrow> u32" where
  "taggedPtrToPtr (TagPtr p) = p"
| "taggedPtrToPtr (TagUint u) = 0"

fun taggedPtrToUint :: "TaggedPtr \<Rightarrow> u32" where
  "taggedPtrToUint (TagPtr p) = 0"
| "taggedPtrToUint (TagUint u) = u"

text \<open>
  \<open>union InternalThing\<close>, as a record of its views; the kernel writes the view that
  goes with the event type it enqueues. The deferred view holds a function and its
  argument, which the model only runs.
\<close>

record InternalThing =
  evtSub_tid :: u32
  evtSub_evt :: u32
  privateEvt_evtType :: u32
  privateEvt_evtData :: u32
  privateEvt_evtFreeInfo :: TaggedPtr
  privateEvt_toTid :: u32

text \<open>
  The three places that call handleEventFreeing: the dispatch loop (line 595), the
  private-event case (line 518), and osFreeRetainedEvent, called by a holder.
\<close>

datatype Applier = ByLoop | ByPrivateEvt | ByRetainer

text \<open>
  The two calls by which handleEventFreeing frees event data. \<open>CallEventFreeF p d\<close> is
  the call \<open>((EventFreeF)p)(d)\<close> of the free function at \<open>p\<close> on the event data \<open>d\<close>.
  \<open>CallAppFreeEvtData i ty d\<close> is the call of cpuAppHandle on the task \<open>mTasks[i]\<close> for
  EVT\_APP\_FREE\_EVT\_DATA with the record \<open>{.evtType = ty, .evtData = d}\<close>.
\<close>

datatype FreeAction = CallEventFreeF u32 u32 | CallAppFreeEvtData nat u32 u32

text \<open>
  The kernel state of seos.c that the dispatch loop works on. \<open>mCurEvtEventFreeingInfo\<close>
  is NULL or points at the loop's local \<open>evtFreeingInfo\<close>, whose value it then holds.
  Two fields record what happened: \<open>free_calls\<close> lists the free actions that have been
  called, each with the place whose call of handleEventFreeing made it, and
  \<open>handed_out\<close> lists the free-infos that calls of osRetainCurrentEvent returning true
  have copied out.
\<close>

record seos =
  mTasks :: "Task list"
  mCurEvtEventFreeingInfo :: "TaggedPtr option"
  free_calls :: "(Applier \<times> FreeAction) list"
  handed_out :: "TaggedPtr list"

definition osRetainCurrentEvent :: "seos \<Rightarrow> bool \<times> seos" where
  "osRetainCurrentEvent st =
     (case mCurEvtEventFreeingInfo st of
        None \<Rightarrow> (False, st)
      | Some info \<Rightarrow>
          (True, st \<lparr> handed_out := handed_out st @ [info],
                      mCurEvtEventFreeingInfo := None \<rparr>))"

text \<open>
  Code outside the kernel (an app's handler run by cpuAppHandle, a deferred callback, a
  free function) is described by the calls it makes that touch this state, in order:
  osRetainCurrentEvent, and osFreeRetainedEvent with its arguments, together with the
  calls made in turn by the code that this free runs. Enqueueing events, subscribing and
  deferring only add to the event queue. Starting or stopping apps from such code is not
  described.
\<close>

datatype AppCall = CallRetain | CallFreeRetained u32 u32 TaggedPtr "AppCall list"

text \<open>
  handleEventFreeing. It returns at once on a null free-info; it calls the free function
  when the free-info is a pointer; otherwise it looks up the owning task and calls its
  handler, or only logs an error when no live task has that tid. \<open>invokeFree\<close> is the
  call itself, of either kind: it enters the call in \<open>free_calls\<close> and runs the code
  called, which \<open>cb\<close> describes.
\<close>

function runCall :: "AppCall \<Rightarrow> seos \<Rightarrow> seos"
  and runCode :: "AppCall list \<Rightarrow> seos \<Rightarrow> seos"
  and invokeFree :: "Applier \<Rightarrow> FreeAction \<Rightarrow> AppCall list \<Rightarrow> seos \<Rightarrow> seos"
  and handleEventFreeing ::
    "Applier \<Rightarrow> u32 \<Rightarrow> u32 \<Rightarrow> TaggedPtr \<Rightarrow> AppCall list \<Rightarrow> seos \<Rightarrow> seos" where
  "runCall CallRetain st = snd (osRetainCurrentEvent st)"
| "runCall (CallFreeRetained evtType evtData info cb) st =
     handleEventFreeing ByRetainer evtType evtData info cb st"
| "runCode [] st = st"
| "runCode (c # cs) st = runCode cs (runCall c st)"
| "invokeFree who act cb st =
     runCode cb (st \<lparr> free_calls := free_calls st @ [(who, act)] \<rparr>)"
| "handleEventFreeing who evtType evtData evtFreeData cb st =
     (if (taggedPtrIsPtr evtFreeData \<and> taggedPtrToPtr evtFreeData = 0) \<or>
         (taggedPtrIsUint evtFreeData \<and> taggedPtrToUint evtFreeData = 0) then st
      else if taggedPtrIsPtr evtFreeData
        then invokeFree who (CallEventFreeF (taggedPtrToPtr evtFreeData) evtData) cb st
      else (case osTaskFindByTid (mTasks st) (taggedPtrToUint evtFreeData) of
              None \<Rightarrow> st
            | Some i \<Rightarrow> invokeFree who (CallAppFreeEvtData i evtType evtData) cb st))"
  by pat_completeness auto
termination
  by (relation "measure (\<lambda>x. case x of
          Inl (Inl (c, st)) \<Rightarrow> 4 * size c
        | Inl (Inr (cs, st)) \<Rightarrow> 4 * size_list size cs + 1
        | Inr (Inl (who, act, cb, st)) \<Rightarrow> 4 * size_list size cb + 2
        | Inr (Inr (who, evtType, evtData, info, cb, st)) \<Rightarrow> 4 * size_list size cb + 3)")
     simp_all

definition osFreeRetainedEvent :: "u32 \<Rightarrow> u32 \<Rightarrow> TaggedPtr \<Rightarrow> AppCall list \<Rightarrow> seos \<Rightarrow> seos" where
  "osFreeRetainedEvent evtType evtData info cb st =
     handleEventFreeing ByRetainer evtType evtData info cb st"

text \<open>
  The free action that a free-info stands for, in the words of the spec: a free function
  to call on the event data, or a task to which the request to free the data is
  delivered, and no action for a null value. A task id that no live task has stands for
  no action either.
\<close>

definition freeActionOf :: "Task list \<Rightarrow> u32 \<Rightarrow> u32 \<Rightarrow> TaggedPtr \<Rightarrow> FreeAction option" where
  "freeActionOf tasks evtType evtData info =
     (case info of
        TagPtr p \<Rightarrow> if p = 0 then None else Some (CallEventFreeF p evtData)
      | TagUint u \<Rightarrow>
          if u = 0 then None
          else map_option (\<lambda>i. CallAppFreeEvtData i evtType evtData) (osTaskFindByTid tasks u))"

subsection \<open>osInternalEvtHandle and osMainDequeueLoop\<close>

text \<open>
  What the surroundings do during one pass of the dispatch loop: whether heapAlloc
  succeeds, and the calls made by each piece of code that the pass runs.
\<close>

record PassEnv =
  alloc_ok :: bool
  handler_code :: "u32 \<Rightarrow> AppCall list"
  internal_code :: "AppCall list"
  private_free_code :: "AppCall list"
  free_code :: "AppCall list"

text \<open>Delivery of a private event to its task, lines 507 to 516.\<close>

definition deliverPrivateEvt :: "PassEnv \<Rightarrow> InternalThing \<Rightarrow> seos \<Rightarrow> seos" where
  "deliverPrivateEvt env da st =
     (case osTaskFindByTid (mTasks st) (privateEvt_toTid da) of
        None \<Rightarrow> st
      | Some i \<Rightarrow>
          let tmp = mCurEvtEventFreeingInfo st;
              st1 = st \<lparr> mCurEvtEventFreeingInfo := None \<rparr>;
              st2 = runCode (internal_code env) st1
          in st2 \<lparr> mCurEvtEventFreeingInfo := tmp \<rparr>)"

definition osInternalEvtHandle :: "PassEnv \<Rightarrow> u32 \<Rightarrow> InternalThing \<Rightarrow> seos \<Rightarrow> seos" where
  "osInternalEvtHandle env evtType da st =
     (if evtType = EVT_SUBSCRIBE_TO_EVT \<or> evtType = EVT_UNSUBSCRIBE_TO_EVT then
        (case osTaskFindByTid (mTasks st) (evtSub_tid da) of
           None \<Rightarrow> st
         | Some i \<Rightarrow>
             st \<lparr> mTasks := (mTasks st)
                    [i := evtSubHandle (alloc_ok env) evtType (evtSub_evt da) (mTasks st ! i)] \<rparr>)
      else if evtType = EVT_DEFERRED_CALLBACK then runCode (internal_code env) st
      else if evtType = EVT_PRIVATE_EVT then
        handleEventFreeing ByPrivateEvt (privateEvt_evtType da) (privateEvt_evtData da)
          (privateEvt_evtFreeInfo da) (private_free_code env)
          (deliverPrivateEvt env da st)
      else st)"

text \<open>
  The broadcast of a user event, lines 581 to 590, over the tasks from index \<open>i\<close> on.
  \<open>user_evt\<close> is \<open>evtType & ~EVENT_TYPE_BIT_DISCARDABLE\<close>.
\<close>

fun broadcastEvt :: "PassEnv \<Rightarrow> u32 \<Rightarrow> Task list \<Rightarrow> seos \<Rightarrow> seos" where
  "broadcastEvt env user_evt [] st = st"
| "broadcastEvt env user_evt (task # tasks) st =
     (if subbedEvents task = NullList then broadcastEvt env user_evt tasks st
      else
        let j = subbedEvtFind (list_of (subbedEvents task)) (unat (subbedEvtCount task)) user_evt 0
        in if j < unat (subbedEvtCount task)
           then broadcastEvt env user_evt tasks (runCode (handler_code env (tid task)) st)
           else broadcastEvt env user_evt tasks st)"

text \<open>
  osMainDequeueLoop after a successful evtQueueDequeue of \<open>(evtType, evtData,
  evtFreeingInfo)\<close>, in two parts: up to the end of delivery (lines 573 to 591), and the
  whole pass. \<open>da\<close> is the InternalThing that \<open>evtData\<close> points to, read for internal
  events only. EVT\_NO\_FIRST\_USER\_EVENT and EVENT\_TYPE\_BIT\_DISCARDABLE come from
  headers outside seos.c and are the parameters \<open>first_user\<close> and \<open>discardable\<close>.
\<close>

definition osMainDequeueLoop_deliver ::
  "u32 \<Rightarrow> u32 \<Rightarrow> PassEnv \<Rightarrow> u32 \<Rightarrow> u32 \<Rightarrow> TaggedPtr \<Rightarrow> InternalThing \<Rightarrow> seos \<Rightarrow> seos" where
  "osMainDequeueLoop_deliver first_user discardable env evtType evtData evtFreeingInfo da st =
     (let st1 = st \<lparr> mCurEvtEventFreeingInfo := Some evtFreeingInfo \<rparr>
      in if evtType < first_user then osInternalEvtHandle env evtType da st1
         else broadcastEvt env (evtType AND NOT discardable) (mTasks st1) st1)"

definition osMainDequeueLoop ::
  "u32 \<Rightarrow> u32 \<Rightarrow> PassEnv \<Rightarrow> u32 \<Rightarrow> u32 \<Rightarrow> TaggedPtr \<Rightarrow> InternalThing \<Rightarrow> seos \<Rightarrow> seos" where
  "osMainDequeueLoop first_user discardable env evtType evtData evtFreeingInfo da st =
     (let st2 = osMainDequeueLoop_deliver first_user discardable env evtType evtData
                  evtFreeingInfo da st;
          st3 = (if mCurEvtEventFreeingInfo st2 \<noteq> None
                 then handleEventFreeing ByLoop evtType evtData evtFreeingInfo
                        (free_code env) st2
                 else st2)
      in st3 \<lparr> mCurEvtEventFreeingInfo := None \<rparr>)"

subsection \<open>What code outside the kernel can change\<close>

text \<open>
  Two relations between a state and a later one, used to state what a piece of code
  can have done. In both, the slot \<open>mCurEvtEventFreeingInfo\<close> and the list of copies
  handed out are as before, or the slot held a free-info, is empty now, and exactly that
  free-info has been handed out. In \<open>code_step\<close> the tasks are as before and the only new
  free calls are those of holders that call osFreeRetainedEvent; in \<open>pass_step\<close> the
  tasks have the tids they had and none of the new free calls is one of the dispatch
  loop's own.
\<close>

definition code_step :: "seos \<Rightarrow> seos \<Rightarrow> bool" where
  "code_step st st' =
     (mTasks st' = mTasks st \<and>
      (\<exists>rest. free_calls st' = free_calls st @ rest \<and> (\<forall>x \<in> set rest. fst x = ByRetainer)) \<and>
      ((mCurEvtEventFreeingInfo st' = mCurEvtEventFreeingInfo st \<and>
        handed_out st' = handed_out st) \<or>
       (\<exists>info. mCurEvtEventFreeingInfo st = Some info \<and> mCurEvtEventFreeingInfo st' = None \<and>
               handed_out st' = handed_out st @ [info])))"

definition pass_step :: "seos \<Rightarrow> seos \<Rightarrow> bool" where
  "pass_step st st' =
     (map tid (mTasks st') = map tid (mTasks st) \<and>
      (\<exists>rest. free_calls st' = free_calls st @ rest \<and> (\<forall>x \<in> set rest. fst x \<noteq> ByLoop)) \<and>
      ((mCurEvtEventFreeingInfo st' = mCurEvtEventFreeingInfo st \<and>
        handed_out st' = handed_out st) \<or>
       (\<exists>info. mCurEvtEventFreeingInfo st = Some info \<and> mCurEvtEventFreeingInfo st' = None \<and>
               handed_out st' = handed_out st @ [info])))"

subsection \<open>osEventSubscribe and osEventUnsubscribe\<close>

text \<open>
  osEventSubscribeUnsubscribe. slabAllocatorAlloc and evtQueueEnqueue are defined
  outside seos.c, so what they return is a parameter: \<open>act\<close> is the record that the
  slab hands out (\<open>None\<close> for NULL) and \<open>item\<close> its contents, \<open>enq_ok\<close> is the
  result of evtQueueEnqueue, and \<open>freeF\<close> is the address of osDeferredActionFreeF. The
  result is the return value and the event that is now in the queue, if any: its type,
  its data pointer, its free-info, and the record the data pointer points to. When the
  queue refuses the event, osEnqueueEvtOrFree gives the record back to the slab.
\<close>

definition osEventSubscribeUnsubscribe ::
  "u32 option \<Rightarrow> InternalThing \<Rightarrow> bool \<Rightarrow> u32 \<Rightarrow> u32 \<Rightarrow> u32 \<Rightarrow> bool
     \<Rightarrow> bool \<times> (u32 \<times> u32 \<times> TaggedPtr \<times> InternalThing) option" where
  "osEventSubscribeUnsubscribe act item enq_ok freeF tid' evtType sub =
     (case act of
        None \<Rightarrow> (False, None)
      | Some p \<Rightarrow>
          let da = item \<lparr> evtSub_evt := evtType, evtSub_tid := tid' \<rparr>
          in if enq_ok
             then (True, Some (if sub then EVT_SUBSCRIBE_TO_EVT else EVT_UNSUBSCRIBE_TO_EVT,
                               p, TagPtr freeF, da))
             else (False, None))"

definition osEventSubscribe ::
  "u32 option \<Rightarrow> InternalThing \<Rightarrow> bool \<Rightarrow> u32 \<Rightarrow> u32 \<Rightarrow> u32
     \<Rightarrow> bool \<times> (u32 \<times> u32 \<times> TaggedPtr \<times> InternalThing) option" where
  "osEventSubscribe act item enq_ok freeF tid' evtType =
     osEventSubscribeUnsubscribe act item enq_ok freeF tid' evtType True"

definition osEventUnsubscribe ::
  "u32 option \<Rightarrow> InternalThing \<Rightarrow> bool \<Rightarrow> u32 \<Rightarrow> u32 \<Rightarrow> u32
     \<Rightarrow> bool \<times> (u32 \<times> u32 \<times> TaggedPtr \<times> InternalThing) option" where
  "osEventUnsubscribe act item enq_ok freeF tid' evtType =
     osEventSubscribeUnsubscribe act item enq_ok freeF tid' evtType False"

subsection \<open>The task table in memory\<close>

text \<open>
  In struct Task, subbedEvents is a pointer: after osStartApp it points to the task's own
  embedded array subbedEventsInt, after a growth to a heap chunk. The by-value \<open>EvtList\<close>
  above gives each task a buffer of its own. Here the pointer is kept as a pointer, so that
  two tasks whose pointers are equal share one buffer: \<open>EmbeddedPtr j\<close> is the address of
  \<open>mTasks[j].subbedEventsInt\<close> and \<open>HeapPtr a\<close> the address \<open>a\<close> of a heap chunk.
\<close>

datatype EvtsPtr = NullPtr | EmbeddedPtr nat | HeapPtr nat

text \<open>
  One element of the array mTasks, with the fields of struct Task that the subscription
  code reads or writes (appHdr and platInfo are left out). The field names carry the prefix
  \<open>slot_\<close> because the record \<open>Task\<close> has the plain names.
\<close>

record TaskSlot =
  slot_tid :: u32
  slot_subbedEvtCount :: u16
  slot_subbedEvtListSz :: u16
  slot_subbedEvents :: EvtsPtr
  slot_subbedEventsInt :: "u32 list"

text \<open>
  The static data of seos.c that holds the tasks, and the heap chunks in use:
  \<open>slots\<close> is the array mTasks (all MAX\_TASKS elements, of which the first mTaskCnt are
  live), \<open>mTaskCnt\<close> and \<open>mNextTidInfo\<close> are the variables of these names, and \<open>chunks\<close>
  maps the address of each heap chunk in use to its words.
\<close>

record TaskTable =
  slots :: "TaskSlot list"
  mTaskCnt :: nat
  mNextTidInfo :: u32
  chunks :: "nat \<Rightarrow> u32 list option"

text \<open>
  The words a pointer points to, and the assignment \<open>p[i] = v\<close>. An index outside the
  buffer is undefined behaviour in C; here the read is \<open>!\<close> out of range and the write
  changes nothing.
\<close>

definition events_at :: "TaskTable \<Rightarrow> EvtsPtr \<Rightarrow> u32 list" where
  "events_at tbl p =
     (case p of
        NullPtr \<Rightarrow> []
      | EmbeddedPtr k \<Rightarrow> slot_subbedEventsInt (slots tbl ! k)
      | HeapPtr a \<Rightarrow> (case chunks tbl a of None \<Rightarrow> [] | Some xs \<Rightarrow> xs))"

definition events_upd :: "EvtsPtr \<Rightarrow> nat \<Rightarrow> u32 \<Rightarrow> TaskTable \<Rightarrow> TaskTable" where
  "events_upd p i v tbl =
     (case p of
        NullPtr \<Rightarrow> tbl
      | EmbeddedPtr k \<Rightarrow>
          tbl \<lparr> slots := (slots tbl)
                  [k := (slots tbl ! k)
                     \<lparr> slot_subbedEventsInt := (slot_subbedEventsInt (slots tbl ! k))[i := v] \<rparr>] \<rparr>
      | HeapPtr a \<Rightarrow>
          (case chunks tbl a of
             None \<Rightarrow> tbl
           | Some xs \<Rightarrow> tbl \<lparr> chunks := (chunks tbl)(a \<mapsto> xs[i := v]) \<rparr>))"

text \<open>
  Assignment to fields of \<open>mTasks[k]\<close>.
\<close>

definition slot_upd :: "nat \<Rightarrow> (TaskSlot \<Rightarrow> TaskSlot) \<Rightarrow> TaskTable \<Rightarrow> TaskTable" where
  "slot_upd k f tbl = tbl \<lparr> slots := (slots tbl)[k := f (slots tbl ! k)] \<rparr>"

text \<open>
  heapFree (of heap.c) takes the chunk out of use. Its call on a pointer that is no heap
  chunk is undefined in C and changes nothing here.
\<close>

definition heapFree :: "EvtsPtr \<Rightarrow> TaskTable \<Rightarrow> TaskTable" where
  "heapFree p tbl =
     (case p of HeapPtr a \<Rightarrow> tbl \<lparr> chunks := (chunks tbl)(a := None) \<rparr> | _ \<Rightarrow> tbl)"

text \<open>
  The task in \<open>mTasks[k]\<close> by value, with the words its pointer points to, and the list of
  the live tasks. This is what osTaskFindByTid searches.
\<close>

definition task_of :: "TaskTable \<Rightarrow> nat \<Rightarrow> Task" where
  "task_of tbl k =
     \<lparr> tid = slot_tid (slots tbl ! k),
       subbedEvtCount = slot_subbedEvtCount (slots tbl ! k),
       subbedEvtListSz = slot_subbedEvtListSz (slots tbl ! k),
       subbedEvents =
         (case slot_subbedEvents (slots tbl ! k) of
            NullPtr \<Rightarrow> NullList
          | EmbeddedPtr j \<Rightarrow> EmbeddedList (events_at tbl (EmbeddedPtr j))
          | HeapPtr a \<Rightarrow> HeapList (events_at tbl (HeapPtr a))) \<rparr>"

definition tasks_of :: "TaskTable \<Rightarrow> Task list" where
  "tasks_of tbl = map (task_of tbl) [0 ..< mTaskCnt tbl]"

text \<open>
  The subscribe/unsubscribe case of osInternalEvtHandle on the task in \<open>mTasks[k]\<close>, line
  by line. \<open>newList\<close> is what heapAlloc returns should this action call it: \<open>None\<close> for
  NULL, \<open>Some a\<close> for the chunk at address \<open>a\<close>. memcpy fills the first subbedEvtListSz
  words of the new chunk; the remaining words are written as 0. The old buffer is freed
  when the pointer differs from the address of the task's own embedded array.
\<close>

definition evtSubHandle_tbl :: "nat option \<Rightarrow> u32 \<Rightarrow> u32 \<Rightarrow> nat \<Rightarrow> TaskTable \<Rightarrow> TaskTable" where
  "evtSubHandle_tbl newList evtType evt k tbl =
     (let task = slots tbl ! k;
          events = events_at tbl (slot_subbedEvents task);
          i = subbedEvtFind events (unat (slot_subbedEvtCount task)) evt 0
      in if evtType = EVT_UNSUBSCRIBE_TO_EVT \<and> i \<noteq> unat (slot_subbedEvtCount task) then
           let count' = slot_subbedEvtCount task - 1;
               tbl1 = slot_upd k (\<lambda>s. s \<lparr> slot_subbedEvtCount := count' \<rparr>) tbl
           in events_upd (slot_subbedEvents task) i (events ! unat count') tbl1
         else if evtType = EVT_SUBSCRIBE_TO_EVT \<and> i = unat (slot_subbedEvtCount task) then
           let tbl1 =
                 (if slot_subbedEvtListSz task = slot_subbedEvtCount task then
                    let newSz = (ucast (slot_subbedEvtListSz task) * 3 + 1) div 2 :: u32
                    in (case newList of
                          None \<Rightarrow> tbl
                        | Some a \<Rightarrow>
                            let tblA = tbl \<lparr> chunks := (chunks tbl)
                                  (a \<mapsto> take (unat (slot_subbedEvtListSz task)) events @
                                         replicate (unat newSz - unat (slot_subbedEvtListSz task)) 0) \<rparr>;
                                tblF = (if slot_subbedEvents task \<noteq> EmbeddedPtr k
                                        then heapFree (slot_subbedEvents task) tblA else tblA)
                            in slot_upd k (\<lambda>s. s \<lparr> slot_subbedEvents := HeapPtr a,
                                                    slot_subbedEvtListSz := ucast newSz \<rparr>) tblF)
                  else tbl);
               task1 = slots tbl1 ! k
           in if slot_subbedEvtListSz task1 > slot_subbedEvtCount task1 then
                slot_upd k (\<lambda>s. s \<lparr> slot_subbedEvtCount := slot_subbedEvtCount s + 1 \<rparr>)
                  (events_upd (slot_subbedEvents task1) (unat (slot_subbedEvtCount task1)) evt tbl1)
              else tbl1
         else tbl)"

text \<open>
  osInternalEvtHandle for EVT\_SUBSCRIBE\_TO\_EVT and EVT\_UNSUBSCRIBE\_TO\_EVT with
  \<open>da->evtSub.tid\<close> and \<open>da->evtSub.evt\<close>: the task is looked up by its tid among the live
  tasks.
\<close>

definition osInternalEvtHandle_tbl :: "nat option \<Rightarrow> u32 \<Rightarrow> u32 \<Rightarrow> u32 \<Rightarrow> TaskTable \<Rightarrow> TaskTable" where
  "osInternalEvtHandle_tbl newList evtType evtSub_tid' evtSub_evt' tbl =
     (if evtType = EVT_SUBSCRIBE_TO_EVT \<or> evtType = EVT_UNSUBSCRIBE_TO_EVT then
        (case osTaskFindByTid (tasks_of tbl) evtSub_tid' of
           None \<Rightarrow> tbl
         | Some k \<Rightarrow> evtSubHandle_tbl newList evtType evtSub_evt' k tbl)
      else tbl)"

text \<open>
  A run of subscribe/unsubscribe actions, on any tasks, in the order the dispatch loop
  handles them: each action is \<open>(newList, evtType, tid, evt)\<close>.
\<close>

fun evtSubHandleAll :: "(nat option \<times> u32 \<times> u32 \<times> u32) list \<Rightarrow> TaskTable \<Rightarrow> TaskTable" where
  "evtSubHandleAll [] tbl = tbl"
| "evtSubHandleAll ((newList, evtType, t, evt) # acts) tbl =
     evtSubHandleAll acts (osInternalEvtHandle_tbl newList evtType t evt tbl)"



text \<open>
  The pointers of the live tasks are separate: each points to the embedded array of its
  own slot or to a heap chunk in use, and no two live tasks have the same pointer.
\<close>

definition ptrs_ok :: "TaskTable \<Rightarrow> bool" where
  "ptrs_ok tbl \<longleftrightarrow>
     mTaskCnt tbl \<le> length (slots tbl) \<and>
     (\<forall>k < mTaskCnt tbl.
        slot_subbedEvents (slots tbl ! k) = EmbeddedPtr k \<or>
        (\<exists>a. slot_subbedEvents (slots tbl ! k) = HeapPtr a \<and> chunks tbl a \<noteq> None)) \<and>
     (\<forall>j < mTaskCnt tbl. \<forall>k < mTaskCnt tbl.
        j \<noteq> k \<longrightarrow> slot_subbedEvents (slots tbl ! j) \<noteq> slot_subbedEvents (slots tbl ! k))"

text \<open>
  osLoadApp, osUnloadApp, osStartApp and osStopTask. MAX\_TASKS, MAX\_EMBEDDED\_EVT\_SUBS,
  FIRST\_VALID\_TID and LAST\_VALID\_TID are parameters; \<open>load_ok\<close> and \<open>init_ok\<close> are the
  results of cpuAppLoad (or cpuInternalAppLoad) and cpuAppInit. A task is named by its
  index in mTasks, \<open>None\<close> for the NULL pointer. osUnloadApp copies the whole last live
  slot over the vacated one with memcpy, pointer included, when the last slot lies behind
  it; it is called on a loaded task only, so mTaskCnt is not 0 there. osStartApp assigns
  subbedEvtListSz, subbedEvents and tid, and no other field; osGetFreeTid searches the live
  tasks, the new slot among them, and may not return (\<open>None\<close>).
\<close>

definition osLoadApp :: "nat \<Rightarrow> bool \<Rightarrow> TaskTable \<Rightarrow> nat option \<times> TaskTable" where
  "osLoadApp max_tasks load_ok tbl =
     (if mTaskCnt tbl = max_tasks then (None, tbl)
      else if load_ok then (Some (mTaskCnt tbl), tbl \<lparr> mTaskCnt := mTaskCnt tbl + 1 \<rparr>)
      else (None, tbl))"

definition osUnloadApp :: "nat \<Rightarrow> TaskTable \<Rightarrow> TaskTable" where
  "osUnloadApp k tbl =
     (let last = mTaskCnt tbl - 1;
          tbl1 = (if last > k then tbl \<lparr> slots := (slots tbl)[k := slots tbl ! last] \<rparr> else tbl)
      in tbl1 \<lparr> mTaskCnt := mTaskCnt tbl - 1 \<rparr>)"

definition osStartApp ::
  "nat \<Rightarrow> nat \<Rightarrow> u32 \<Rightarrow> u32 \<Rightarrow> bool \<Rightarrow> bool \<Rightarrow> TaskTable \<Rightarrow> (bool \<times> TaskTable) option" where
  "osStartApp max_tasks max_embedded first_tid last_tid load_ok init_ok tbl =
     (case osLoadApp max_tasks load_ok tbl of
        (None, tbl1) \<Rightarrow> Some (False, tbl1)
      | (Some k, tbl1) \<Rightarrow>
          let tbl2 = slot_upd k (\<lambda>s. s \<lparr> slot_subbedEvtListSz := of_nat max_embedded,
                                          slot_subbedEvents := EmbeddedPtr k \<rparr>) tbl1
          in (case osGetFreeTid first_tid last_tid (tasks_of tbl2) (mNextTidInfo tbl2) of
                None \<Rightarrow> None
              | Some t \<Rightarrow>
                  let tbl3 = slot_upd k (\<lambda>s. s \<lparr> slot_tid := t \<rparr>) (tbl2 \<lparr> mNextTidInfo := t \<rparr>)
                  in if init_ok then Some (True, tbl3)
                     else Some (False, osUnloadApp k tbl3)))"

definition osStopTask :: "nat option \<Rightarrow> TaskTable \<Rightarrow> bool \<times> TaskTable" where
  "osStopTask task tbl =
     (case task of None \<Rightarrow> (False, tbl) | Some k \<Rightarrow> (True, osUnloadApp k tbl))"

section \<open>Example states\<close>

text \<open>
  A calibration state whose gyro window means are small, one whose x mean is out of
  range, and one with an armed watchdog that uses the magnetometer.
\<close>

definition gyro_cal_accept :: GyroCal where
  "gyro_cal_accept = zeroed_GyroCal
     \<lparr> gyro_stillness_detect := zeroed_GyroStillDet
         \<lparr> prev_mean_x := 0.001, prev_mean_y := - 0.002, prev_mean_z := 0.0005 \<rparr>,
       temperature_mean_celsius := 25 \<rparr>"

definition gyro_cal_reject :: GyroCal where
  "gyro_cal_reject = zeroed_GyroCal
     \<lparr> gyro_stillness_detect := zeroed_GyroStillDet \<lparr> prev_mean_x := 0.2 \<rparr>,
       bias_x := 0.05 \<rparr>"

definition gyro_cal_stalled :: GyroCal where
  "gyro_cal_stalled = zeroed_GyroCal
     \<lparr> gyro_watchdog_start_nanos := 1, gyro_watchdog_timeout_duration_nanos := 1000000000,
       stillness_win_endtime_nanos := 500000001, prev_still := True,
       stillness_confidence := 1, using_mag_sensor := True \<rparr>"

definition reset_clearing_ready :: "bool \<Rightarrow> GyroStillDet \<Rightarrow> GyroStillDet" where
  "reset_clearing_ready reset_stats d = d \<lparr> stillness_window_ready := False \<rparr>"

definition zeroed_TemperatureStatics :: TemperatureStatics where
  "zeroed_TemperatureStatics =
     \<lparr> mean_accumulator = 0, static_temperature_min_max_celsius = (0, 0), num_points = 0 \<rparr>"

definition zeroed_MeanStatics :: MeanStatics where
  "zeroed_MeanStatics =
     \<lparr> static_gyro_winmean_min = (0, 0, 0), static_gyro_winmean_max = (0, 0, 0) \<rparr>"

text \<open>A task as osStartApp leaves it, with six embedded slots and no subscription.\<close>

definition started_task :: "u32 \<Rightarrow> Task" where
  "started_task t = \<lparr> tid = t, subbedEvtCount = 0, subbedEvtListSz = 6,
     subbedEvents = EmbeddedList (replicate 6 0) \<rparr>"

text \<open>
  A task with tid 1 whose six embedded slots are all taken, a kernel state that holds
  this task alone, a zeroed action record, and surroundings in which no code outside the
  kernel makes a call that matters here, with heapAlloc failing or succeeding.
\<close>

definition full_task :: Task where
  "full_task = \<lparr> tid = 1, subbedEvtCount = 6, subbedEvtListSz = 6,
     subbedEvents = EmbeddedList [301, 302, 303, 304, 305, 306] \<rparr>"

definition seos_full_task :: seos where
  "seos_full_task = \<lparr> mTasks = [full_task], mCurEvtEventFreeingInfo = None,
     free_calls = [], handed_out = [] \<rparr>"

definition zeroed_InternalThing :: InternalThing where
  "zeroed_InternalThing = \<lparr> evtSub_tid = 0, evtSub_evt = 0, privateEvt_evtType = 0,
     privateEvt_evtData = 0, privateEvt_evtFreeInfo = TagPtr 0, privateEvt_toTid = 0 \<rparr>"

definition quiet_env :: "bool \<Rightarrow> PassEnv" where
  "quiet_env heap_ok = \<lparr> alloc_ok = heap_ok, handler_code = (\<lambda>t. []), internal_code = [],
     private_free_code = [], free_code = [] \<rparr>"

text \<open>The action record of a subscription of task 1 to event type 307.\<close>

definition sub307 :: InternalThing where
  "sub307 = zeroed_InternalThing \<lparr> evtSub_evt := 307, evtSub_tid := 1 \<rparr>"

text \<open>
  Surroundings in which the code run by the loop's free step calls osRetainCurrentEvent,
  and surroundings in which every handler that receives the event does.
\<close>

definition retain_on_free_env :: PassEnv where
  "retain_on_free_env = \<lparr> alloc_ok = True, handler_code = (\<lambda>t. []), internal_code = [],
     private_free_code = [], free_code = [CallRetain] \<rparr>"

definition retain_in_handler_env :: PassEnv where
  "retain_in_handler_env = \<lparr> alloc_ok = True, handler_code = (\<lambda>t. [CallRetain]),
     internal_code = [], private_free_code = [], free_code = [] \<rparr>"

text \<open>
  A pass that has just dequeued an action whose free-info is the function at 100, a
  private event of type 400 for task 1 and the same event for a task 5 that does not
  exist, and surroundings in which the handler of the private event calls
  osRetainCurrentEvent twice.
\<close>

definition seos_in_pass :: seos where
  "seos_in_pass = seos_full_task \<lparr> mCurEvtEventFreeingInfo := Some (TagPtr 100) \<rparr>"

definition private_for_1 :: InternalThing where
  "private_for_1 = zeroed_InternalThing \<lparr> privateEvt_evtType := 400, privateEvt_evtData := 9,
     privateEvt_evtFreeInfo := TagPtr 200, privateEvt_toTid := 1 \<rparr>"

definition private_for_5 :: InternalThing where
  "private_for_5 = private_for_1 \<lparr> privateEvt_toTid := 5 \<rparr>"

definition retain_in_private_env :: PassEnv where
  "retain_in_private_env = \<lparr> alloc_ok = True, handler_code = (\<lambda>t. []),
     internal_code = [CallRetain, CallRetain], private_free_code = [], free_code = [] \<rparr>"

text \<open>
  The private event for task 1 again, once with a free-info that names task 5, which
  does not exist, as the owner, and once with a free-info that names task 1; and
  surroundings in which the owner's handler for EVT\_APP\_FREE\_EVT\_DATA calls
  osRetainCurrentEvent.
\<close>

definition private_owned_by_5 :: InternalThing where
  "private_owned_by_5 = private_for_1 \<lparr> privateEvt_evtFreeInfo := TagUint 5 \<rparr>"

definition private_owned_by_1 :: InternalThing where
  "private_owned_by_1 = private_for_1 \<lparr> privateEvt_evtFreeInfo := TagUint 1 \<rparr>"

definition retain_on_private_free_env :: PassEnv where
  "retain_on_private_free_env = \<lparr> alloc_ok = True, handler_code = (\<lambda>t. []),
     internal_code = [], private_free_code = [CallRetain], free_code = [] \<rparr>"

subsection \<open>Task tables\<close>

text \<open>
  The task table with MAX\_TASKS = 2 and MAX\_EMBEDDED\_EVT\_SUBS = 6: as the static
  storage is at start (all zero, mNextTidInfo = FIRST\_VALID\_TID = 1), after two calls of
  osStartApp, and after the first task has subscribed to six event types.
\<close>

definition zeroed_TaskSlot :: TaskSlot where
  "zeroed_TaskSlot = \<lparr> slot_tid = 0, slot_subbedEvtCount = 0, slot_subbedEvtListSz = 0,
     slot_subbedEvents = NullPtr, slot_subbedEventsInt = replicate 6 0 \<rparr>"

definition zeroed_table :: TaskTable where
  "zeroed_table = \<lparr> slots = [zeroed_TaskSlot, zeroed_TaskSlot], mTaskCnt = 0,
     mNextTidInfo = 1, chunks = (\<lambda>a. None) \<rparr>"

definition started_slot :: "nat \<Rightarrow> u32 \<Rightarrow> TaskSlot" where
  "started_slot k t = \<lparr> slot_tid = t, slot_subbedEvtCount = 0, slot_subbedEvtListSz = 6,
     slot_subbedEvents = EmbeddedPtr k, slot_subbedEventsInt = replicate 6 0 \<rparr>"

definition two_task_table :: TaskTable where
  "two_task_table = \<lparr> slots = [started_slot 0 2, started_slot 1 3], mTaskCnt = 2,
     mNextTidInfo = 3, chunks = (\<lambda>a. None) \<rparr>"

definition full_table :: TaskTable where
  "full_table = two_task_table
     \<lparr> slots := [(started_slot 0 2) \<lparr> slot_subbedEvtCount := 6,
                    slot_subbedEventsInt := [301, 302, 303, 304, 305, 306] \<rparr>,
                 started_slot 1 3] \<rparr>"


text \<open>
  One task whose list has grown into the heap chunk 0, and the table after this task was
  stopped and another one started in its slot.
\<close>

definition grown_table :: TaskTable where
  "grown_table = \<lparr> slots = [\<lparr> slot_tid = 2, slot_subbedEvtCount = 7, slot_subbedEvtListSz = 9,
                                slot_subbedEvents = HeapPtr 0,
                                slot_subbedEventsInt = [301, 302, 303, 304, 305, 306] \<rparr>,
                              zeroed_TaskSlot],
     mTaskCnt = 1, mNextTidInfo = 2,
     chunks = (\<lambda>a. None)(0 \<mapsto> [301, 302, 303, 304, 305, 306, 307, 0, 0]) \<rparr>"

definition reused_table :: TaskTable where
  "reused_table = grown_table
     \<lparr> slots := [\<lparr> slot_tid = 3, slot_subbedEvtCount = 7, slot_subbedEvtListSz = 6,
                    slot_subbedEvents = EmbeddedPtr 0,
                    slot_subbedEventsInt = [301, 302, 303, 304, 305, 306] \<rparr>,
                  zeroed_TaskSlot],
       mNextTidInfo := 3 \<rparr>"

text \<open>
  Two tasks of which the second is subscribed to event type 301, and the table after the
  first was stopped and another task started.
\<close>

definition one_sub_slot :: "u32 \<Rightarrow> TaskSlot" where
  "one_sub_slot t = \<lparr> slot_tid = t, slot_subbedEvtCount = 1, slot_subbedEvtListSz = 6,
     slot_subbedEvents = EmbeddedPtr 1, slot_subbedEventsInt = [301, 0, 0, 0, 0, 0] \<rparr>"

definition one_sub_table :: TaskTable where
  "one_sub_table = two_task_table \<lparr> slots := [started_slot 0 2, one_sub_slot 3] \<rparr>"

definition aliased_table :: TaskTable where
  "aliased_table = two_task_table \<lparr> slots := [one_sub_slot 3, one_sub_slot 4], mNextTidInfo := 4 \<rparr>"

section \<open>Properties of the gyroscope calibration\<close>

text \<open>
  C1 (as amended). With \<open>gyro_calibration_enable\<close> false, gyroCalRemoveBias writes
  nothing: the three output locations keep the contents they had before the call. They
  equal the inputs when they held the inputs before the call, which is the in-place call
  where the outputs are the caller's own input variables.
\<close>

theorem gyroCalRemoveBias_disabled:
  "\<not> gyro_calibration_enable gyro_cal \<Longrightarrow>
     gyroCalRemoveBias gyro_cal xi yi zi out = out \<and>
     gyroCalRemoveBias gyro_cal xi yi zi (xi, yi, zi) = (xi, yi, zi)"
  by (simp add: gyroCalRemoveBias_def)

theorem gyroCalRemoveBias_disabled_witness:
  "\<not> gyro_calibration_enable zeroed_GyroCal \<and>
   gyroCalRemoveBias zeroed_GyroCal 1 2 3 (7, 8, 9) = (7, 8, 9) \<and>
   gyroCalRemoveBias zeroed_GyroCal 1 2 3 (1, 2, 3) = (1, 2, 3)"
proof -
  have dis: "\<not> gyro_calibration_enable zeroed_GyroCal"
    by (simp add: zeroed_GyroCal_def)
  show ?thesis
    using dis gyroCalRemoveBias_disabled [OF dis, of 1 2 3 "(7, 8, 9)"]
      gyroCalRemoveBias_disabled [OF dis, of 1 2 3 "(1, 2, 3)"]
    by simp
qed

text \<open>
  C1 as stated fails: with calibration disabled and output locations that hold
  \<open>(7, 8, 9)\<close>, the outputs after the call are \<open>(7, 8, 9)\<close>, not the inputs
  \<open>(1, 2, 3)\<close>.
\<close>

theorem gyroCalRemoveBias_disabled_counterexample:
  "\<not> gyro_calibration_enable zeroed_GyroCal \<and>
   gyroCalRemoveBias zeroed_GyroCal 1 2 3 (7, 8, 9) \<noteq> (1, 2, 3)"
  by (simp add: gyroCalRemoveBias_def zeroed_GyroCal_def)

text \<open>
  C3. computeGyroCal commits a new bias exactly when every axis of the gyro detector's
  previous window mean lies strictly within \<open>(- MAX_GYRO_BIAS, MAX_GYRO_BIAS)\<close>: then
  the three bias fields take the window means, the bias temperature takes the mean
  temperature, the calibration time is the one passed in, the stillness confidence is the
  product of the three previous confidences, and the flag is raised, so the committed
  bias is below MAX\_GYRO\_BIAS in absolute value on each axis. Otherwise the state is
  returned as it was.
\<close>

theorem computeGyroCal_commits_iff_in_range:
  "(\<bar>prev_mean_x (gyro_stillness_detect gyro_cal)\<bar> < MAX_GYRO_BIAS \<and>
    \<bar>prev_mean_y (gyro_stillness_detect gyro_cal)\<bar> < MAX_GYRO_BIAS \<and>
    \<bar>prev_mean_z (gyro_stillness_detect gyro_cal)\<bar> < MAX_GYRO_BIAS \<longrightarrow>
      computeGyroCal gyro_cal t = gyro_cal
        \<lparr> bias_x := prev_mean_x (gyro_stillness_detect gyro_cal),
          bias_y := prev_mean_y (gyro_stillness_detect gyro_cal),
          bias_z := prev_mean_z (gyro_stillness_detect gyro_cal),
          bias_temperature_celsius := temperature_mean_celsius gyro_cal,
          calibration_time_nanos := t,
          stillness_confidence :=
            prev_stillness_confidence (accel_stillness_detect gyro_cal) *
            prev_stillness_confidence (gyro_stillness_detect gyro_cal) *
            prev_stillness_confidence (mag_stillness_detect gyro_cal),
          new_gyro_cal_available := True \<rparr> \<and>
      \<bar>bias_x (computeGyroCal gyro_cal t)\<bar> < MAX_GYRO_BIAS \<and>
      \<bar>bias_y (computeGyroCal gyro_cal t)\<bar> < MAX_GYRO_BIAS \<and>
      \<bar>bias_z (computeGyroCal gyro_cal t)\<bar> < MAX_GYRO_BIAS) \<and>
   (\<not> (\<bar>prev_mean_x (gyro_stillness_detect gyro_cal)\<bar> < MAX_GYRO_BIAS \<and>
        \<bar>prev_mean_y (gyro_stillness_detect gyro_cal)\<bar> < MAX_GYRO_BIAS \<and>
        \<bar>prev_mean_z (gyro_stillness_detect gyro_cal)\<bar> < MAX_GYRO_BIAS) \<longrightarrow>
      computeGyroCal gyro_cal t = gyro_cal)"
  unfolding computeGyroCal_def
  by (auto simp: abs_less_iff mult_ac)

theorem computeGyroCal_commits_iff_in_range_witness:
  "bias_x (computeGyroCal gyro_cal_accept 7) = 0.001 \<and>
   bias_y (computeGyroCal gyro_cal_accept 7) = - 0.002 \<and>
   bias_z (computeGyroCal gyro_cal_accept 7) = 0.0005 \<and>
   bias_temperature_celsius (computeGyroCal gyro_cal_accept 7) = 25 \<and>
   calibration_time_nanos (computeGyroCal gyro_cal_accept 7) = 7 \<and>
   new_gyro_cal_available (computeGyroCal gyro_cal_accept 7) \<and>
   computeGyroCal gyro_cal_reject 7 = gyro_cal_reject \<and>
   bias_x (computeGyroCal gyro_cal_reject 7) = 0.05"
proof -
  have acc: "\<bar>prev_mean_x (gyro_stillness_detect gyro_cal_accept)\<bar> < MAX_GYRO_BIAS \<and>
             \<bar>prev_mean_y (gyro_stillness_detect gyro_cal_accept)\<bar> < MAX_GYRO_BIAS \<and>
             \<bar>prev_mean_z (gyro_stillness_detect gyro_cal_accept)\<bar> < MAX_GYRO_BIAS"
    by (simp add: gyro_cal_accept_def zeroed_GyroCal_def zeroed_GyroStillDet_def
        MAX_GYRO_BIAS_def)
  have rej: "\<not> (\<bar>prev_mean_x (gyro_stillness_detect gyro_cal_reject)\<bar> < MAX_GYRO_BIAS \<and>
                 \<bar>prev_mean_y (gyro_stillness_detect gyro_cal_reject)\<bar> < MAX_GYRO_BIAS \<and>
                 \<bar>prev_mean_z (gyro_stillness_detect gyro_cal_reject)\<bar> < MAX_GYRO_BIAS)"
    by (simp add: gyro_cal_reject_def zeroed_GyroCal_def zeroed_GyroStillDet_def
        MAX_GYRO_BIAS_def)
  have a: "computeGyroCal gyro_cal_accept 7 = gyro_cal_accept
        \<lparr> bias_x := prev_mean_x (gyro_stillness_detect gyro_cal_accept),
          bias_y := prev_mean_y (gyro_stillness_detect gyro_cal_accept),
          bias_z := prev_mean_z (gyro_stillness_detect gyro_cal_accept),
          bias_temperature_celsius := temperature_mean_celsius gyro_cal_accept,
          calibration_time_nanos := 7,
          stillness_confidence :=
            prev_stillness_confidence (accel_stillness_detect gyro_cal_accept) *
            prev_stillness_confidence (gyro_stillness_detect gyro_cal_accept) *
            prev_stillness_confidence (mag_stillness_detect gyro_cal_accept),
          new_gyro_cal_available := True \<rparr>"
    using computeGyroCal_commits_iff_in_range [of gyro_cal_accept 7] acc by blast
  have r: "computeGyroCal gyro_cal_reject 7 = gyro_cal_reject"
    using computeGyroCal_commits_iff_in_range [of gyro_cal_reject 7] rej by blast
  show ?thesis
    unfolding a r
    by (simp add: gyro_cal_accept_def gyro_cal_reject_def zeroed_GyroCal_def
        zeroed_GyroStillDet_def)
qed

text \<open>
  C4. When \<open>gyro_watchdog_start_nanos\<close> is positive and the sample time minus that
  start exceeds the timeout duration, checkWatchdog fires: afterwards the window end-time
  is 0, the three detectors' previous confidences and the overall stillness confidence
  are 0, \<open>prev_still\<close> is false, the watchdog start is 0 and the timeout flag is set.
  The magnetometer stays in use exactly when it was in use and its detector is
  window-ready after the reset; so, for a reset that does not raise the ready flag, a
  magnetometer that was in use and not window-ready is no longer in use.
\<close>

theorem checkWatchdog_timeout:
  assumes start: "0 < gyro_watchdog_start_nanos gyro_cal"
    and late: "uint (gyro_watchdog_timeout_duration_nanos gyro_cal)
                 < uint sample_time_nanos - uint (gyro_watchdog_start_nanos gyro_cal)"
    and keeps: "\<And>d. \<not> stillness_window_ready d \<Longrightarrow>
                  \<not> stillness_window_ready (gyroStillDetReset True d)"
  shows "let g' = fst (checkWatchdog gyroStillDetReset gyro_cal ts ms sample_time_nanos) in
     stillness_win_endtime_nanos g' = 0 \<and>
     prev_stillness_confidence (accel_stillness_detect g') = 0 \<and>
     prev_stillness_confidence (gyro_stillness_detect g') = 0 \<and>
     prev_stillness_confidence (mag_stillness_detect g') = 0 \<and>
     stillness_confidence g' = 0 \<and>
     \<not> prev_still g' \<and>
     gyro_watchdog_start_nanos g' = 0 \<and>
     gyro_watchdog_timeout g' \<and>
     using_mag_sensor g' =
       (using_mag_sensor gyro_cal \<and>
        stillness_window_ready (gyroStillDetReset True (mag_stillness_detect gyro_cal))) \<and>
     (using_mag_sensor gyro_cal \<and> \<not> stillness_window_ready (mag_stillness_detect gyro_cal)
        \<longrightarrow> \<not> using_mag_sensor g')"
proof -
  have "uint sample_time_nanos < 2 ^ 64"
    using uint_bounded [of sample_time_nanos] by simp
  with late have "uint (gyro_watchdog_timeout_duration_nanos gyro_cal) +
      uint (gyro_watchdog_start_nanos gyro_cal) < 2 ^ 64"
    by linarith
  then have "uint (gyro_watchdog_timeout_duration_nanos gyro_cal +
      gyro_watchdog_start_nanos gyro_cal) =
      uint (gyro_watchdog_timeout_duration_nanos gyro_cal) +
      uint (gyro_watchdog_start_nanos gyro_cal)"
    by (simp add: uint_plus_if')
  with late have fire: "sample_time_nanos >
      gyro_watchdog_timeout_duration_nanos gyro_cal + gyro_watchdog_start_nanos gyro_cal"
    by (simp add: word_less_def)
  have armed: "\<not> gyro_watchdog_start_nanos gyro_cal \<le> 0"
    using start by (simp add: word_neq_0_conv)
  show ?thesis
    using armed fire keeps [of "mag_stillness_detect gyro_cal"]
    by (auto simp: checkWatchdog_def Let_def)
qed

theorem checkWatchdog_timeout_witness:
  "stillness_win_endtime_nanos (fst (checkWatchdog reset_clearing_ready gyro_cal_stalled
      zeroed_TemperatureStatics zeroed_MeanStatics 1600000000)) = 0 \<and>
   \<not> prev_still (fst (checkWatchdog reset_clearing_ready gyro_cal_stalled
      zeroed_TemperatureStatics zeroed_MeanStatics 1600000000)) \<and>
   stillness_confidence (fst (checkWatchdog reset_clearing_ready gyro_cal_stalled
      zeroed_TemperatureStatics zeroed_MeanStatics 1600000000)) = 0 \<and>
   gyro_watchdog_start_nanos (fst (checkWatchdog reset_clearing_ready gyro_cal_stalled
      zeroed_TemperatureStatics zeroed_MeanStatics 1600000000)) = 0 \<and>
   \<not> using_mag_sensor (fst (checkWatchdog reset_clearing_ready gyro_cal_stalled
      zeroed_TemperatureStatics zeroed_MeanStatics 1600000000))"
proof -
  have start: "0 < gyro_watchdog_start_nanos gyro_cal_stalled"
    by (simp add: gyro_cal_stalled_def zeroed_GyroCal_def)
  have late: "uint (gyro_watchdog_timeout_duration_nanos gyro_cal_stalled)
                < uint (1600000000 :: u64) - uint (gyro_watchdog_start_nanos gyro_cal_stalled)"
    by (simp add: gyro_cal_stalled_def zeroed_GyroCal_def)
  have keeps: "\<And>d. \<not> stillness_window_ready d \<Longrightarrow>
                  \<not> stillness_window_ready (reset_clearing_ready True d)"
    by (simp add: reset_clearing_ready_def)
  have mag: "using_mag_sensor gyro_cal_stalled \<and>
             \<not> stillness_window_ready (mag_stillness_detect gyro_cal_stalled)"
    by (simp add: gyro_cal_stalled_def zeroed_GyroCal_def zeroed_GyroStillDet_def)
  show ?thesis
    using checkWatchdog_timeout [where gyroStillDetReset = reset_clearing_ready
        and gyro_cal = gyro_cal_stalled and sample_time_nanos = 1600000000
        and ts = zeroed_TemperatureStatics and ms = zeroed_MeanStatics, OF start late keeps]
      mag
    by (simp add: Let_def reset_clearing_ready_def)
qed

section \<open>Properties of the task-id allocation\<close>

lemma osTaskFindByTid_None:
  "osTaskFindByTid tasks t = None \<longleftrightarrow> (\<forall>x \<in> set tasks. tid x \<noteq> 0 \<longrightarrow> tid x \<noteq> t)"
  by (induction tasks) auto

lemma nextTid_in_range:
  assumes "first_tid \<le> last_tid"
    and "(first_tid \<le> n \<and> n \<le> last_tid) \<or> n + 1 = first_tid"
  shows "first_tid \<le> nextTid first_tid last_tid n \<and> nextTid first_tid last_tid n \<le> last_tid"
proof (cases "n = last_tid")
  case True
  then show ?thesis using assms by (simp add: nextTid_def)
next
  case False
  show ?thesis
  proof (cases "n + 1 = first_tid")
    case True
    then show ?thesis using assms False by (simp add: nextTid_def)
  next
    case f2: False
    with assms have r: "first_tid \<le> n" "n \<le> last_tid" by auto
    with False have "n < last_tid" by simp
    then have "first_tid \<le> n + 1 \<and> n + 1 \<le> last_tid" using r
      by unat_arith
    then show ?thesis using False by (simp add: nextTid_def)
  qed
qed

lemma tidDistance_step:
  assumes "first_tid \<le> f" "f \<le> last_tid"
    and "nextTid first_tid last_tid n \<noteq> f"
  shows "tidDistance first_tid last_tid f (nextTid first_tid last_tid n)
           < tidDistance first_tid last_tid f n"
proof (cases "f \<le> n \<and> n \<le> last_tid")
  case True
  show ?thesis
  proof (cases "n = last_tid")
    case l: True
    then have nx: "nextTid first_tid last_tid n = first_tid" by (simp add: nextTid_def)
    with assms have "first_tid < f" by (auto simp: less_le)
    then have "\<not> (f \<le> first_tid \<and> first_tid \<le> last_tid)" by (simp add: not_le)
    moreover have "unat (f - first_tid) = unat f - unat first_tid"
      using assms(1) by (simp add: unat_sub)
    ultimately show ?thesis using True l nx
      by (simp add: tidDistance_def)
  next
    case False
    then have nx: "nextTid first_tid last_tid n = n + 1" by (simp add: nextTid_def)
    from False True have lt: "n < last_tid" by (auto simp: less_le)
    then have u: "unat (n + 1) = unat n + 1" by unat_arith
    have "f \<le> n + 1 \<and> n + 1 \<le> last_tid" using True lt by unat_arith
    then show ?thesis using True nx u lt
      by (simp add: tidDistance_def word_less_nat_alt)
  qed
next
  case False
  then have nl: "n \<noteq> last_tid" using assms(2) by auto
  then have nx: "nextTid first_tid last_tid n = n + 1" by (simp add: nextTid_def)
  from False assms(2) have nf: "f \<noteq> n" by auto
  then have z: "f - n \<noteq> 0" by simp
  have out: "\<not> (f \<le> n + 1 \<and> n + 1 \<le> last_tid)"
  proof
    assume a: "f \<le> n + 1 \<and> n + 1 \<le> last_tid"
    from assms(3) nx have ne: "n + 1 \<noteq> f" by simp
    with a have "f < n + 1" by (auto simp: less_le)
    show False
    proof (cases "n + 1 = 0")
      case True
      with a show False using \<open>f < n + 1\<close> by simp
    next
      case f0: False
      then have "unat (n + 1) = unat n + 1" using unatSuc [of n] by (simp add: add.commute)
      with \<open>f < n + 1\<close> a False show False by unat_arith
    qed
  qed
  have dec: "unat (f - (n + 1)) = unat (f - n) - 1"
  proof -
    have e: "f - (n + 1) = (f - n) - 1" by simp
    show ?thesis unfolding e using unat_minus_one [OF z] by simp
  qed
  have pos: "0 < unat (f - n)" using z by (simp add: unat_gt_0)
  have d0: "tidDistance first_tid last_tid f n = unat (f - n)"
    by (simp only: tidDistance_def False if_False)
  have d1: "tidDistance first_tid last_tid f (n + 1) = unat (f - (n + 1))"
    by (simp only: tidDistance_def out if_False)
  show ?thesis unfolding nx d0 d1 dec using pos by simp
qed

lemma osGetFreeTid_terminates:
  assumes "first_tid \<le> f" "f \<le> last_tid" "osTaskFindByTid tasks f = None"
  shows "\<exists>r. osGetFreeTid first_tid last_tid tasks n = Some r \<and>
              (r = f \<or> tidDistance first_tid last_tid f r < tidDistance first_tid last_tid f n)"
proof (induction "tidDistance first_tid last_tid f n" arbitrary: n rule: less_induct)
  case less
  let ?n' = "nextTid first_tid last_tid n"
  show ?case
  proof (cases "osTaskFindByTid tasks ?n' = None")
    case True
    then have r: "osGetFreeTid first_tid last_tid tasks n = Some ?n'"
      by (subst osGetFreeTid.simps) (simp add: Let_def)
    show ?thesis
    proof (cases "?n' = f")
      case True
      with r show ?thesis by simp
    next
      case False
      from tidDistance_step [OF assms(1,2) False] r show ?thesis by simp
    qed
  next
    case False
    then have u: "osGetFreeTid first_tid last_tid tasks n =
                  osGetFreeTid first_tid last_tid tasks ?n'"
      by (subst osGetFreeTid.simps) (simp add: Let_def)
    from False assms(3) have ne: "?n' \<noteq> f" by auto
    from tidDistance_step [OF assms(1,2) ne]
    have lt: "tidDistance first_tid last_tid f ?n' < tidDistance first_tid last_tid f n" .
    from less [OF lt] obtain r where
      "osGetFreeTid first_tid last_tid tasks ?n' = Some r"
      "r = f \<or> tidDistance first_tid last_tid f r < tidDistance first_tid last_tid f ?n'"
      by blast
    with u lt show ?thesis by auto
  qed
qed

lemma osGetFreeTid_first_free:
  assumes "osGetFreeTid first_tid last_tid tasks n = Some r"
  shows "\<exists>k. r = (nextTid first_tid last_tid ^^ Suc k) n \<and>
         osTaskFindByTid tasks r = None \<and>
         (\<forall>j < k. osTaskFindByTid tasks ((nextTid first_tid last_tid ^^ Suc j) n) \<noteq> None)"
  using assms
proof (induct first_tid last_tid tasks n r rule: osGetFreeTid.raw_induct [rotated 1, consumes 1])
  case (1 loop first_tid last_tid tasks n r)
  let ?n' = "nextTid first_tid last_tid n"
  show ?case
  proof (cases "osTaskFindByTid tasks ?n' = None")
    case True
    with 1(2) have "r = ?n'" by (simp add: Let_def)
    with True show ?thesis by (intro exI [of _ 0]) simp
  next
    case False
    with 1(2) have "loop first_tid last_tid tasks ?n' = Some r" by (simp add: Let_def)
    from 1(1) [OF this] obtain k where
      k: "r = (nextTid first_tid last_tid ^^ Suc k) ?n'"
         "osTaskFindByTid tasks r = None"
         "\<forall>j < k. osTaskFindByTid tasks ((nextTid first_tid last_tid ^^ Suc j) ?n') \<noteq> None"
      by blast
    have sw: "\<And>j. (nextTid first_tid last_tid ^^ Suc j) ?n' =
                   (nextTid first_tid last_tid ^^ Suc (Suc j)) n"
      by (simp add: funpow_swap1)
    have "\<forall>j < Suc k. osTaskFindByTid tasks ((nextTid first_tid last_tid ^^ Suc j) n) \<noteq> None"
    proof (intro allI impI)
      fix j assume "j < Suc k"
      show "osTaskFindByTid tasks ((nextTid first_tid last_tid ^^ Suc j) n) \<noteq> None"
      proof (cases j)
        case 0
        with False show ?thesis by simp
      next
        case (Suc i)
        with \<open>j < Suc k\<close> have "i < k" by simp
        with k(3) have "osTaskFindByTid tasks ((nextTid first_tid last_tid ^^ Suc i) ?n') \<noteq> None"
          by blast
        then show ?thesis unfolding sw Suc .
      qed
    qed
    with k(1,2) sw [of k] show ?thesis by (intro exI [of _ "Suc k"]) simp
  qed
qed

lemma nextTid_funpow_in_range:
  assumes "first_tid \<le> last_tid"
    and "(first_tid \<le> n \<and> n \<le> last_tid) \<or> n + 1 = first_tid"
  shows "first_tid \<le> (nextTid first_tid last_tid ^^ Suc k) n \<and>
         (nextTid first_tid last_tid ^^ Suc k) n \<le> last_tid"
proof (induction k)
  case 0
  then show ?case using nextTid_in_range [OF assms] by simp
next
  case (Suc k)
  then show ?case using nextTid_in_range [OF assms(1), of "(nextTid first_tid last_tid ^^ Suc k) n"]
    by simp
qed

lemma osGetFreeTid_diverges:
  assumes "first_tid \<le> last_tid"
    and "\<forall>f. first_tid \<le> f \<and> f \<le> last_tid \<longrightarrow> osTaskFindByTid tasks f \<noteq> None"
    and "(first_tid \<le> n \<and> n \<le> last_tid) \<or> n + 1 = first_tid"
  shows "osGetFreeTid first_tid last_tid tasks n = None"
proof (rule ccontr)
  assume "osGetFreeTid first_tid last_tid tasks n \<noteq> None"
  then obtain r where "osGetFreeTid first_tid last_tid tasks n = Some r" by auto
  from osGetFreeTid_first_free [OF this] obtain k where
    "r = (nextTid first_tid last_tid ^^ Suc k) n" "osTaskFindByTid tasks r = None" by blast
  moreover have "first_tid \<le> r \<and> r \<le> last_tid"
    unfolding \<open>r = _\<close> by (rule nextTid_funpow_in_range [OF assms(1,3)])
  ultimately show False using assms(2) by blast
qed

lemma card_tid_range:
  assumes "first_tid \<le> last_tid"
  shows "card {first_tid..last_tid :: u32} = unat last_tid - unat first_tid + 1"
proof -
  have "unat ` {first_tid..last_tid} = {unat first_tid..unat last_tid}"
  proof (intro set_eqI iffI)
    fix x assume "x \<in> unat ` {first_tid..last_tid}"
    then show "x \<in> {unat first_tid..unat last_tid}" by (auto simp: word_le_nat_alt)
  next
    fix x assume x: "x \<in> {unat first_tid..unat last_tid}"
    then have "x \<le> unat last_tid" by simp
    then have "unat (of_nat x :: u32) = x" by (rule le_unat_uoi)
    with x have "(of_nat x :: u32) \<in> {first_tid..last_tid}" by (simp add: word_le_nat_alt)
    with \<open>unat (of_nat x :: u32) = x\<close> show "x \<in> unat ` {first_tid..last_tid}"
      by (metis imageI)
  qed
  moreover have "inj_on unat {first_tid..last_tid}"
    by (auto simp: inj_on_def word_unat_eq_iff)
  ultimately show ?thesis
    using assms card_image [of unat "{first_tid..last_tid}"]
    by (simp add: word_le_nat_alt)
qed

lemma free_tid_exists_other:
  assumes "first_tid \<le> last_tid"
    and "length tasks + 1 < unat last_tid - unat first_tid + 1"
  shows "\<exists>f. first_tid \<le> f \<and> f \<le> last_tid \<and> f \<noteq> n \<and> osTaskFindByTid tasks f = None"
proof (rule ccontr)
  assume "\<not> ?thesis"
  then have "\<forall>f \<in> {first_tid..last_tid} - {n}. osTaskFindByTid tasks f \<noteq> None" by auto
  then have live: "\<forall>f \<in> {first_tid..last_tid} - {n}. \<exists>x \<in> set tasks. tid x = f"
    unfolding osTaskFindByTid_None by blast
  have sub: "{first_tid..last_tid} - {n} \<subseteq> tid ` set tasks"
  proof
    fix f assume "f \<in> {first_tid..last_tid} - {n}"
    with live obtain x where "x \<in> set tasks" "tid x = f" by blast
    then show "f \<in> tid ` set tasks" by blast
  qed
  have "card ({first_tid..last_tid} - {n}) \<le> card (tid ` set tasks)"
    by (rule card_mono) (use sub in auto)
  moreover have "card (tid ` set tasks) \<le> length tasks"
    by (meson card_image_le card_length le_trans List.finite_set)
  moreover have "card {first_tid..last_tid} - 1 \<le> card ({first_tid..last_tid} - {n})"
    by (simp add: card_Diff_singleton_if)
  ultimately show False using assms(2) card_tid_range [OF assms(1)] by simp
qed

lemma free_tid_exists:
  assumes "first_tid \<le> last_tid"
    and "length tasks < unat last_tid - unat first_tid + 1"
  shows "\<exists>f. first_tid \<le> f \<and> f \<le> last_tid \<and> osTaskFindByTid tasks f = None"
proof (rule ccontr)
  assume "\<not> ?thesis"
  then have "\<forall>f \<in> {first_tid..last_tid}. osTaskFindByTid tasks f \<noteq> None" by auto
  then have live: "\<forall>f \<in> {first_tid..last_tid}. \<exists>x \<in> set tasks. tid x = f"
    unfolding osTaskFindByTid_None by blast
  have sub: "{first_tid..last_tid} \<subseteq> tid ` set tasks"
  proof
    fix f assume "f \<in> {first_tid..last_tid}"
    with live obtain x where "x \<in> set tasks" "tid x = f" by blast
    then show "f \<in> tid ` set tasks" by blast
  qed
  have "card {first_tid..last_tid} \<le> card (tid ` set tasks)"
    by (rule card_mono) (use sub in auto)
  moreover have "card (tid ` set tasks) \<le> length tasks"
    by (meson card_image_le card_length le_trans List.finite_set)
  ultimately show False using assms(2) card_tid_range [OF assms(1)] by simp
qed

lemma osGetFreeTid_scenario:
  assumes "0 < first_tid" "first_tid < last_tid"
    and "osTaskFindByTid tasks first_tid \<noteq> None"
    and "osTaskFindByTid tasks (first_tid + 1) = None"
  shows "osGetFreeTid first_tid last_tid tasks (first_tid - 1) = Some (first_tid + 1)"
proof -
  have "first_tid - 1 < first_tid" using assms(1) by unat_arith
  with assms(2) have "first_tid - 1 \<noteq> last_tid" by auto
  then have n1: "nextTid first_tid last_tid (first_tid - 1) = first_tid"
    by (simp add: nextTid_def)
  have n2: "nextTid first_tid last_tid first_tid = first_tid + 1"
    using assms(2) by (auto simp: nextTid_def)
  have "osGetFreeTid first_tid last_tid tasks (first_tid - 1) =
        osGetFreeTid first_tid last_tid tasks first_tid"
    by (subst osGetFreeTid.simps) (simp add: Let_def n1 assms(3))
  also have "\<dots> = Some (first_tid + 1)"
    by (subst osGetFreeTid.simps) (simp add: Let_def n2 assms(4))
  finally show ?thesis .
qed

text \<open>
  C6. Let the range be non-empty, the counter lie in the range or just below it, and
  some tid of the range be free. Then osGetFreeTid returns; the result lies in
  \<open>[FIRST_VALID_TID, LAST_VALID_TID]\<close> and is the tid of no live task; it is reached
  from the counter by repeating the step that adds one and wraps from LAST\_VALID\_TID to
  FIRST\_VALID\_TID, and every value passed on the way is live. In particular, with the
  counter at \<open>FIRST_VALID_TID - 1\<close>, a live task holding FIRST\_VALID\_TID and
  \<open>FIRST_VALID_TID + 1\<close> free, the result is \<open>FIRST_VALID_TID + 1\<close>.
\<close>

theorem osGetFreeTid_returns_free_tid:
  assumes range: "first_tid \<le> last_tid"
    and counter: "(first_tid \<le> n \<and> n \<le> last_tid) \<or> n + 1 = first_tid"
    and free: "first_tid \<le> f \<and> f \<le> last_tid \<and> osTaskFindByTid tasks f = None"
  shows "(\<exists>r k. osGetFreeTid first_tid last_tid tasks n = Some r \<and>
            first_tid \<le> r \<and> r \<le> last_tid \<and>
            (\<forall>t \<in> set tasks. tid t \<noteq> 0 \<longrightarrow> tid t \<noteq> r) \<and>
            r = (nextTid first_tid last_tid ^^ Suc k) n \<and>
            (\<forall>j < k. osTaskFindByTid tasks ((nextTid first_tid last_tid ^^ Suc j) n) \<noteq> None)) \<and>
         (0 < first_tid \<and> first_tid < last_tid \<and>
          osTaskFindByTid tasks first_tid \<noteq> None \<and>
          osTaskFindByTid tasks (first_tid + 1) = None \<longrightarrow>
            osGetFreeTid first_tid last_tid tasks (first_tid - 1) = Some (first_tid + 1))"
proof (intro conjI impI)
  from free osGetFreeTid_terminates [of first_tid f last_tid tasks n]
  obtain r where r: "osGetFreeTid first_tid last_tid tasks n = Some r" by blast
  from osGetFreeTid_first_free [OF r] obtain k where
    k: "r = (nextTid first_tid last_tid ^^ Suc k) n" "osTaskFindByTid tasks r = None"
       "\<forall>j < k. osTaskFindByTid tasks ((nextTid first_tid last_tid ^^ Suc j) n) \<noteq> None"
    by blast
  have "first_tid \<le> r \<and> r \<le> last_tid"
    unfolding k(1) by (rule nextTid_funpow_in_range [OF range counter])
  moreover have "\<forall>t \<in> set tasks. tid t \<noteq> 0 \<longrightarrow> tid t \<noteq> r"
    using k(2) by (simp add: osTaskFindByTid_None)
  ultimately show "\<exists>r k. osGetFreeTid first_tid last_tid tasks n = Some r \<and>
            first_tid \<le> r \<and> r \<le> last_tid \<and>
            (\<forall>t \<in> set tasks. tid t \<noteq> 0 \<longrightarrow> tid t \<noteq> r) \<and>
            r = (nextTid first_tid last_tid ^^ Suc k) n \<and>
            (\<forall>j < k. osTaskFindByTid tasks ((nextTid first_tid last_tid ^^ Suc j) n) \<noteq> None)"
    using r k(1,3) by blast
next
  assume "0 < first_tid \<and> first_tid < last_tid \<and>
          osTaskFindByTid tasks first_tid \<noteq> None \<and>
          osTaskFindByTid tasks (first_tid + 1) = None"
  then show "osGetFreeTid first_tid last_tid tasks (first_tid - 1) = Some (first_tid + 1)"
    by (intro osGetFreeTid_scenario) auto
qed

theorem osGetFreeTid_returns_free_tid_witness:
  "osGetFreeTid 1 0x0FFFFFFF [started_task 1] 0 = Some 2"
proof -
  have range: "(1 :: u32) \<le> 0x0FFFFFFF" by simp
  have counter: "((1 :: u32) \<le> 0 \<and> (0 :: u32) \<le> 0x0FFFFFFF) \<or> (0 :: u32) + 1 = 1" by simp
  have free: "(1 :: u32) \<le> 2 \<and> (2 :: u32) \<le> 0x0FFFFFFF \<and>
              osTaskFindByTid [started_task 1] 2 = None"
    by (simp add: started_task_def)
  have scen: "(0 :: u32) < 1 \<and> (1 :: u32) < 0x0FFFFFFF \<and>
              osTaskFindByTid [started_task 1] 1 \<noteq> None \<and>
              osTaskFindByTid [started_task 1] (1 + 1) = None"
    by (simp add: started_task_def)
  from osGetFreeTid_returns_free_tid [OF range counter free] scen
  show ?thesis by simp
qed

text \<open>
  C10. osGetFreeTid returns whenever some tid of \<open>[FIRST_VALID_TID, LAST_VALID_TID]\<close> is
  the tid of no live task, and there is such a tid whenever the task table holds fewer
  tasks than the range has tids. The counter is advanced before the test: every result is
  reached from the counter by at least one step. With the table holding at most MAX\_TASKS
  tasks (osLoadApp refuses more) and MAX\_TASKS at least two below the number of tids of
  the range, osGetFreeTid returns a value other than the one the counter had at the call,
  whether or not that value is the tid of a live task. When every tid of the range is
  live and the counter lies in the range or just below it, the loop does not end.
  MAX\_TASKS comes from a header outside seos.c and is the variable \<open>max_tasks\<close>.
\<close>

theorem osGetFreeTid_termination:
  assumes range: "first_tid \<le> last_tid"
  shows "((\<exists>f. first_tid \<le> f \<and> f \<le> last_tid \<and> osTaskFindByTid tasks f = None) \<longrightarrow>
            (\<exists>r. osGetFreeTid first_tid last_tid tasks n = Some r)) \<and>
         (length tasks < unat last_tid - unat first_tid + 1 \<longrightarrow>
            (\<exists>f. first_tid \<le> f \<and> f \<le> last_tid \<and> osTaskFindByTid tasks f = None) \<and>
            (\<exists>r. osGetFreeTid first_tid last_tid tasks n = Some r)) \<and>
         (\<forall>r. osGetFreeTid first_tid last_tid tasks n = Some r \<longrightarrow>
            (\<exists>k. r = (nextTid first_tid last_tid ^^ Suc k) n)) \<and>
         (length tasks \<le> max_tasks \<and> max_tasks + 1 < unat last_tid - unat first_tid + 1 \<longrightarrow>
            (\<exists>r. osGetFreeTid first_tid last_tid tasks n = Some r \<and> r \<noteq> n)) \<and>
         ((\<forall>f. first_tid \<le> f \<and> f \<le> last_tid \<longrightarrow> osTaskFindByTid tasks f \<noteq> None) \<and>
          ((first_tid \<le> n \<and> n \<le> last_tid) \<or> n + 1 = first_tid) \<longrightarrow>
            osGetFreeTid first_tid last_tid tasks n = None)"
proof (intro conjI impI allI)
  assume "\<exists>f. first_tid \<le> f \<and> f \<le> last_tid \<and> osTaskFindByTid tasks f = None"
  then show "\<exists>r. osGetFreeTid first_tid last_tid tasks n = Some r"
    using osGetFreeTid_terminates [of first_tid _ last_tid tasks n] by blast
next
  assume "length tasks < unat last_tid - unat first_tid + 1"
  from free_tid_exists [OF range this]
  show "\<exists>f. first_tid \<le> f \<and> f \<le> last_tid \<and> osTaskFindByTid tasks f = None" .
next
  assume "length tasks < unat last_tid - unat first_tid + 1"
  from free_tid_exists [OF range this]
  show "\<exists>r. osGetFreeTid first_tid last_tid tasks n = Some r"
    using osGetFreeTid_terminates [of first_tid _ last_tid tasks n] by blast
next
  fix r assume "osGetFreeTid first_tid last_tid tasks n = Some r"
  from osGetFreeTid_first_free [OF this]
  show "\<exists>k. r = (nextTid first_tid last_tid ^^ Suc k) n" by blast
next
  assume "length tasks \<le> max_tasks \<and> max_tasks + 1 < unat last_tid - unat first_tid + 1"
  then have "length tasks + 1 < unat last_tid - unat first_tid + 1" by simp
  from free_tid_exists_other [OF range this, of n]
  obtain f where f: "first_tid \<le> f" "f \<le> last_tid" "f \<noteq> n"
    "osTaskFindByTid tasks f = None" by blast
  from osGetFreeTid_terminates [OF f(1,2,4), of n] obtain r where
    r: "osGetFreeTid first_tid last_tid tasks n = Some r"
       "r = f \<or> tidDistance first_tid last_tid f r < tidDistance first_tid last_tid f n"
    by blast
  from r(2) f(3) have "r \<noteq> n" by auto
  with r(1) show "\<exists>r. osGetFreeTid first_tid last_tid tasks n = Some r \<and> r \<noteq> n" by blast
next
  assume "(\<forall>f. first_tid \<le> f \<and> f \<le> last_tid \<longrightarrow> osTaskFindByTid tasks f \<noteq> None) \<and>
          ((first_tid \<le> n \<and> n \<le> last_tid) \<or> n + 1 = first_tid)"
  then have all_live: "\<forall>f. first_tid \<le> f \<and> f \<le> last_tid \<longrightarrow> osTaskFindByTid tasks f \<noteq> None"
    and counter: "(first_tid \<le> n \<and> n \<le> last_tid) \<or> n + 1 = first_tid"
    by simp_all
  show "osGetFreeTid first_tid last_tid tasks n = None"
    by (rule osGetFreeTid_diverges [OF range all_live counter])
qed

lemma u32_between_1_2: "(1 :: u32) \<le> f \<Longrightarrow> f \<le> 2 \<Longrightarrow> f = 1 \<or> f = 2"
  by (auto simp: word_le_nat_alt word_unat_eq_iff)

theorem osGetFreeTid_termination_witness:
  "(\<exists>r. osGetFreeTid 1 0x0FFFFFFF [started_task 1, started_task 2] 2 = Some r \<and> r \<noteq> 2) \<and>
   osTaskFindByTid [started_task 1, started_task 2] 5 = None \<and>
   (\<exists>r. osGetFreeTid 1 0x0FFFFFFF [started_task 1, started_task 2] 5 = Some r \<and> r \<noteq> 5) \<and>
   osGetFreeTid 1 2 [started_task 1, started_task 2] 2 = None"
proof -
  have range: "(1 :: u32) \<le> 0x0FFFFFFF" by simp
  have range2: "(1 :: u32) \<le> 2" by simp
  have few: "length [started_task 1, started_task 2] \<le> 16 \<and>
      16 + 1 < unat (0x0FFFFFFF :: u32) - unat (1 :: u32) + 1" by simp
  have full: "(\<forall>f :: u32. 1 \<le> f \<and> f \<le> 2 \<longrightarrow>
                osTaskFindByTid [started_task 1, started_task 2] f \<noteq> None) \<and>
              (((1 :: u32) \<le> 2 \<and> (2 :: u32) \<le> 2) \<or> (2 :: u32) + 1 = 1)"
    using u32_between_1_2 by (auto simp: started_task_def)
  from osGetFreeTid_termination [OF range, of "[started_task 1, started_task 2]" 2 16] few
  have a: "\<exists>r. osGetFreeTid 1 0x0FFFFFFF [started_task 1, started_task 2] 2 = Some r \<and> r \<noteq> 2"
    by blast
  from osGetFreeTid_termination [OF range, of "[started_task 1, started_task 2]" 5 16] few
  have b: "\<exists>r. osGetFreeTid 1 0x0FFFFFFF [started_task 1, started_task 2] 5 = Some r \<and> r \<noteq> 5"
    by blast
  from osGetFreeTid_termination [OF range2, of "[started_task 1, started_task 2]" 2 16] full
  have c: "osGetFreeTid 1 2 [started_task 1, started_task 2] 2 = None"
    by blast
  have d: "osTaskFindByTid [started_task 1, started_task 2] 5 = None"
    by (simp add: started_task_def)
  from a b c d show ?thesis by blast
qed

section \<open>Properties of the subscription lists\<close>

subsection \<open>The search loop\<close>

lemma subbedEvtFind_stop:
  "\<not> (i < count \<and> events ! i \<noteq> evt) \<Longrightarrow> subbedEvtFind events count evt i = i"
  by (subst subbedEvtFind.simps) auto

lemma subbedEvtFind_step:
  "i < count \<and> events ! i \<noteq> evt \<Longrightarrow>
     subbedEvtFind events count evt i = subbedEvtFind events count evt (i + 1)"
  by (subst subbedEvtFind.simps) auto

lemma subbedEvtFind_bounds:
  "i \<le> count \<Longrightarrow> i \<le> subbedEvtFind events count evt i \<and> subbedEvtFind events count evt i \<le> count"
proof (induction events count evt i rule: subbedEvtFind.induct)
  case (1 events count evt i)
  show ?case
  proof (cases "i < count \<and> events ! i \<noteq> evt")
    case True
    from 1(1) [OF True] True show ?thesis
      unfolding subbedEvtFind_step [OF True] by simp
  next
    case False
    with 1(2) show ?thesis unfolding subbedEvtFind_stop [OF False] by simp
  qed
qed

lemma subbedEvtFind_found:
  "i \<le> count \<Longrightarrow> subbedEvtFind events count evt i < count \<Longrightarrow>
     events ! subbedEvtFind events count evt i = evt"
proof (induction events count evt i rule: subbedEvtFind.induct)
  case (1 events count evt i)
  show ?case
  proof (cases "i < count \<and> events ! i \<noteq> evt")
    case True
    from 1(1) [OF True] True 1(3) show ?thesis
      unfolding subbedEvtFind_step [OF True] by simp
  next
    case False
    with 1(3) show ?thesis unfolding subbedEvtFind_stop [OF False] by simp
  qed
qed

lemma subbedEvtFind_skipped:
  "i \<le> j \<Longrightarrow> j < subbedEvtFind events count evt i \<Longrightarrow> events ! j \<noteq> evt"
proof (induction events count evt i rule: subbedEvtFind.induct)
  case (1 events count evt i)
  show ?case
  proof (cases "i < count \<and> events ! i \<noteq> evt")
    case True
    show ?thesis
    proof (cases "j = i")
      case True
      with \<open>i < count \<and> events ! i \<noteq> evt\<close> show ?thesis by simp
    next
      case False
      with 1(2) have "i + 1 \<le> j" by simp
      from 1(1) [OF True this] 1(3) show ?thesis
        unfolding subbedEvtFind_step [OF True] by simp
    qed
  next
    case False
    with 1(2,3) show ?thesis unfolding subbedEvtFind_stop [OF False] by simp
  qed
qed

text \<open>The search returns the count exactly when evt is not among the first count entries.\<close>

lemma subbedEvtFind_absent:
  assumes "count \<le> length events"
  shows "subbedEvtFind events count evt 0 = count \<longleftrightarrow> evt \<notin> set (take count events)"
proof
  assume e: "subbedEvtFind events count evt 0 = count"
  show "evt \<notin> set (take count events)"
  proof
    assume "evt \<in> set (take count events)"
    then obtain j where j: "j < count" "events ! j = evt"
      using assms by (auto simp: in_set_conv_nth)
    with subbedEvtFind_skipped [of 0 j events count evt] e show False by simp
  qed
next
  assume n: "evt \<notin> set (take count events)"
  show "subbedEvtFind events count evt 0 = count"
  proof (rule ccontr)
    assume "subbedEvtFind events count evt 0 \<noteq> count"
    with subbedEvtFind_bounds [of 0 count events evt]
    have lt: "subbedEvtFind events count evt 0 < count" by simp
    from subbedEvtFind_found [OF _ lt] have "events ! subbedEvtFind events count evt 0 = evt" by simp
    with lt assms have "evt \<in> set (take count events)"
      by (auto simp: in_set_conv_nth intro!: exI [of _ "subbedEvtFind events count evt 0"])
    with n show False by simp
  qed
qed

subsection \<open>One action\<close>

lemma list_of_list_upd [simp]: "list_of (list_upd l i v) = (list_of l)[i := v]"
  by (cases l) simp_all

lemma list_upd_Null [simp]: "list_upd l i v = NullList \<longleftrightarrow> l = NullList"
  by (cases l) simp_all

lemma EVT_types_distinct [simp]:
  "EVT_SUBSCRIBE_TO_EVT \<noteq> EVT_UNSUBSCRIBE_TO_EVT" "EVT_UNSUBSCRIBE_TO_EVT \<noteq> EVT_SUBSCRIBE_TO_EVT"
  by (simp_all add: EVT_SUBSCRIBE_TO_EVT_def EVT_UNSUBSCRIBE_TO_EVT_def)

lemma find_absent_task:
  assumes "unat (subbedEvtCount t) \<le> length (list_of (subbedEvents t))"
  shows "subbedEvtFind (list_of (subbedEvents t)) (unat (subbedEvtCount t)) e 0 = unat (subbedEvtCount t)
           \<longleftrightarrow> e \<notin> set (subscribed t)"
  unfolding subscribed_def by (rule subbedEvtFind_absent [OF assms])





lemma newSz_unat:
  "unat ((ucast (sz :: u16) * 3 + 1) div 2 :: u32) = (unat sz * 3 + 1) div 2"
proof -
  have b: "unat sz < 65536" using unsigned_less [of sz, where 'a = nat] by simp
  have "unat (ucast sz :: u32) = unat sz"
    using b by (simp add: unsigned_ucast_eq take_bit_eq_mod)
  then have "unat (ucast sz * 3 + 1 :: u32) = unat sz * 3 + 1"
    using b by (simp add: unat_word_ariths)
  then show ?thesis by (simp add: unat_div)
qed



lemma evtSubHandle_sub_full_grow:
  assumes len: "unat (subbedEvtListSz t) \<le> length (list_of (subbedEvents t))"
    and full: "subbedEvtListSz t = subbedEvtCount t"
    and absent: "e \<notin> set (subscribed t)"
  defines "old \<equiv> unat (subbedEvtListSz t)"
  defines "buf \<equiv> take old (list_of (subbedEvents t)) @ replicate ((old * 3 + 1) div 2 - old) 0"
  shows "length buf = (old * 3 + 1) div 2"
    and "take old buf = take old (list_of (subbedEvents t))"
    and "0 < old \<Longrightarrow> (old * 3 + 1) div 2 < 65536 \<Longrightarrow>
           evtSubHandle True EVT_SUBSCRIBE_TO_EVT e t =
             t \<lparr> subbedEvents := HeapList (buf[old := e]),
                 subbedEvtListSz := ucast ((ucast (subbedEvtListSz t) * 3 + 1) div 2 :: u32),
                 subbedEvtCount := subbedEvtCount t + 1 \<rparr> \<and>
           unat (ucast ((ucast (subbedEvtListSz t) * 3 + 1) div 2 :: u32) :: u16)
             = (old * 3 + 1) div 2 \<and>
           unat (subbedEvtCount t + 1) = old + 1 \<and>
           subscribed (evtSubHandle True EVT_SUBSCRIBE_TO_EVT e t) = subscribed t @ [e]"
proof -
  let ?evs = "list_of (subbedEvents t)"
  let ?new = "(ucast (subbedEvtListSz t) * 3 + 1) div 2 :: u32"
  have un: "unat ?new = (old * 3 + 1) div 2" by (simp add: newSz_unat old_def)
  have ge: "old \<le> (old * 3 + 1) div 2" by simp
  show lb: "length buf = (old * 3 + 1) div 2"
    using len ge by (simp add: buf_def old_def [symmetric] min_def)
  show tk: "take old buf = take old ?evs"
    using len by (simp add: buf_def old_def [symmetric] min_def)
  have cnt: "unat (subbedEvtCount t) = old" using full by (simp add: old_def)
  have cl: "unat (subbedEvtCount t) \<le> length ?evs" using len cnt by (simp add: old_def)
  from find_absent_task [OF cl, of e] absent
  have i: "subbedEvtFind ?evs (unat (subbedEvtCount t)) e 0 = unat (subbedEvtCount t)" by simp
  show "evtSubHandle True EVT_SUBSCRIBE_TO_EVT e t =
             t \<lparr> subbedEvents := HeapList (buf[old := e]),
                 subbedEvtListSz := ucast ?new,
                 subbedEvtCount := subbedEvtCount t + 1 \<rparr> \<and>
           unat (ucast ?new :: u16) = (old * 3 + 1) div 2 \<and>
           unat (subbedEvtCount t + 1) = old + 1 \<and>
           subscribed (evtSubHandle True EVT_SUBSCRIBE_TO_EVT e t) = subscribed t @ [e]"
    if pos: "0 < old" and small: "(old * 3 + 1) div 2 < 65536"
  proof -
    have uc: "unat (ucast ?new :: u16) = (old * 3 + 1) div 2"
      using small un by (simp add: unsigned_ucast_eq take_bit_eq_mod)
    have gt0: "old < (old * 3 + 1) div 2" using pos by simp
    have gt: "(ucast ?new :: u16) > subbedEvtCount t"
      using gt0 uc cnt by (simp add: word_less_nat_alt)
    have inc: "unat (subbedEvtCount t + 1) = old + 1"
      using gt0 small cnt by (simp add: unat_word_ariths)
    have eq: "evtSubHandle True EVT_SUBSCRIBE_TO_EVT e t =
             t \<lparr> subbedEvents := HeapList (buf[old := e]),
                 subbedEvtListSz := ucast ?new,
                 subbedEvtCount := subbedEvtCount t + 1 \<rparr>"
      using i full gt cnt un
      by (simp add: evtSubHandle_def Let_def buf_def old_def [symmetric])
    have "subscribed (evtSubHandle True EVT_SUBSCRIBE_TO_EVT e t) = take (old + 1) (buf[old := e])"
      unfolding eq by (simp add: subscribed_def inc)
    also have "\<dots> = take old buf @ [e]"
      using lb gt0 by (simp add: take_Suc_conv_app_nth)
    also have "\<dots> = subscribed t @ [e]"
      unfolding tk by (simp add: subscribed_def cnt)
    finally show ?thesis using eq uc inc by simp
  qed
qed







lemma osInternalEvtHandle_subscribe:
  assumes "evtType = EVT_SUBSCRIBE_TO_EVT \<or> evtType = EVT_UNSUBSCRIBE_TO_EVT"
    and "osTaskFindByTid (mTasks st) (evtSub_tid da) = Some i"
  shows "mTasks (osInternalEvtHandle env evtType da st) =
           (mTasks st)[i := evtSubHandle (alloc_ok env) evtType (evtSub_evt da) (mTasks st ! i)]"
  using assms by (auto simp: osInternalEvtHandle_def)

lemma grow_size_is_ceiling: "(old * 3 + 1) div 2 = nat \<lceil>real old * 3 / 2\<rceil>"
proof -
  have "\<lceil>real old * 3 / 2\<rceil> = \<lceil>real_of_int (int old * 3) / real_of_int 2\<rceil>" by simp
  also have "\<dots> = - (- (int old * 3) div 2)" by (simp only: ceiling_divide_eq_div)
  also have "\<dots> = (int old * 3 + 1) div 2" by linarith
  finally show ?thesis by (simp add: nat_div_distrib nat_add_distrib nat_mult_distrib)
qed

lemma full_task_facts:
  "task_ok full_task" "distinct (subscribed full_task)"
  "subbedEvtListSz full_task = subbedEvtCount full_task"
  "subscribed full_task = [301, 302, 303, 304, 305, 306]"
  "unat (subbedEvtListSz full_task) = 6" "unat (subbedEvtCount full_task) = 6"
  by (simp_all add: full_task_def task_ok_def subscribed_def)

subsection \<open>The claims on subscription lists\<close>

text \<open>
  C7 (as amended). osEventSubscribe and osEventUnsubscribe return false exactly when the
  slab has no action record or the event queue refuses the event; the heap is not involved.
  When the action is processed later, the list is full and heapAlloc fails,
  osInternalEvtHandle returns the state as it was: the subscription is dropped and nothing
  reports it.
\<close>

theorem subscription_allocation_failure_is_silent:
  "(fst (osEventSubscribeUnsubscribe act item enq_ok freeF t evt sub) = False
      \<longleftrightarrow> act = None \<or> \<not> enq_ok) \<and>
   (osTaskFindByTid (mTasks st) (evtSub_tid da) = Some i \<and>
    subbedEvtListSz (mTasks st ! i) = subbedEvtCount (mTasks st ! i) \<and>
    \<not> alloc_ok env \<longrightarrow>
      osInternalEvtHandle env EVT_SUBSCRIBE_TO_EVT da st = st)"
proof (intro conjI impI)
  show "fst (osEventSubscribeUnsubscribe act item enq_ok freeF t evt sub) = False
      \<longleftrightarrow> act = None \<or> \<not> enq_ok"
    by (simp add: osEventSubscribeUnsubscribe_def Let_def split: option.splits)
next
  assume a: "osTaskFindByTid (mTasks st) (evtSub_tid da) = Some i \<and>
    subbedEvtListSz (mTasks st ! i) = subbedEvtCount (mTasks st ! i) \<and> \<not> alloc_ok env"
  then have "evtSubHandle (alloc_ok env) EVT_SUBSCRIBE_TO_EVT (evtSub_evt da) (mTasks st ! i)
               = mTasks st ! i"
    by (simp add: evtSubHandle_def Let_def)
  with a show "osInternalEvtHandle env EVT_SUBSCRIBE_TO_EVT da st = st"
    by (simp add: osInternalEvtHandle_def)
qed

theorem subscription_allocation_failure_is_silent_witness:
  "fst (osEventSubscribe None zeroed_InternalThing True 200 1 307) = False \<and>
   fst (osEventSubscribe (Some 64) zeroed_InternalThing False 200 1 307) = False \<and>
   fst (osEventSubscribe (Some 64) zeroed_InternalThing True 200 1 307) = True \<and>
   osInternalEvtHandle (quiet_env False) EVT_SUBSCRIBE_TO_EVT sub307 seos_full_task = seos_full_task"
proof -
  note t = subscription_allocation_failure_is_silent
  have h: "osTaskFindByTid (mTasks seos_full_task) (evtSub_tid sub307) = Some 0 \<and>
    subbedEvtListSz (mTasks seos_full_task ! 0) = subbedEvtCount (mTasks seos_full_task ! 0) \<and>
    \<not> alloc_ok (quiet_env False)"
    by (simp add: seos_full_task_def sub307_def full_task_def quiet_env_def)
  from t [of None zeroed_InternalThing True 200 1 307 True]
  have "fst (osEventSubscribe None zeroed_InternalThing True 200 1 307) = False"
    by (simp add: osEventSubscribe_def)
  moreover from t [of "Some 64" zeroed_InternalThing False 200 1 307 True]
  have "fst (osEventSubscribe (Some 64) zeroed_InternalThing False 200 1 307) = False"
    by (simp add: osEventSubscribe_def)
  moreover from t [of "Some 64" zeroed_InternalThing True 200 1 307 True]
  have "fst (osEventSubscribe (Some 64) zeroed_InternalThing True 200 1 307) = True"
    by (simp add: osEventSubscribe_def)
  moreover from t [of _ _ _ _ _ _ _ seos_full_task sub307 0 "quiet_env False"] h
  have "osInternalEvtHandle (quiet_env False) EVT_SUBSCRIBE_TO_EVT sub307 seos_full_task
          = seos_full_task" by blast
  ultimately show ?thesis by blast
qed

text \<open>
  C7 as stated fails: osEventSubscribe returns true for a subscription of task 1 to event
  type 307; when the dispatch loop processes it the list is full and heapAlloc fails, and
  the task is still subscribed to its six old event types only.
\<close>

theorem subscription_allocation_failure_counterexample:
  "osEventSubscribe (Some 64) zeroed_InternalThing True 200 1 307
     = (True, Some (EVT_SUBSCRIBE_TO_EVT, 64, TagPtr 200, sub307)) \<and>
   subbedEvtListSz full_task = subbedEvtCount full_task \<and>
   \<not> alloc_ok (quiet_env False) \<and>
   subscribed (mTasks (osMainDequeueLoop 256 0x80000000 (quiet_env False)
                 EVT_SUBSCRIBE_TO_EVT 64 (TagPtr 200) sub307 seos_full_task) ! 0)
     = [301, 302, 303, 304, 305, 306]"
proof -
  have f: "subbedEvtFind [301, 302, 303, 304, 305, 306] 6 307 0 = 6"
    by (simp add: subbedEvtFind.simps)
  have e: "evtSubHandle False EVT_SUBSCRIBE_TO_EVT 307 full_task = full_task"
    by (simp add: evtSubHandle_def full_task_def f Let_def)
  have i: "osInternalEvtHandle (quiet_env False) EVT_SUBSCRIBE_TO_EVT sub307
             (seos_full_task \<lparr> mCurEvtEventFreeingInfo := Some (TagPtr 200) \<rparr>)
           = seos_full_task \<lparr> mCurEvtEventFreeingInfo := Some (TagPtr 200) \<rparr>"
    using e by (simp add: osInternalEvtHandle_def seos_full_task_def sub307_def quiet_env_def
        full_task_def)
  have lt: "EVT_SUBSCRIBE_TO_EVT < (256 :: u32)" by (simp add: EVT_SUBSCRIBE_TO_EVT_def)
  have "mTasks (osMainDequeueLoop 256 0x80000000 (quiet_env False)
                 EVT_SUBSCRIBE_TO_EVT 64 (TagPtr 200) sub307 seos_full_task) = [full_task]"
    using lt
    by (simp add: osMainDequeueLoop_def osMainDequeueLoop_deliver_def i Let_def)
       (simp add: seos_full_task_def quiet_env_def)
  then show ?thesis
    by (simp add: osEventSubscribe_def osEventSubscribeUnsubscribe_def sub307_def
        full_task_facts quiet_env_def)
qed

text \<open>
  C8 (as amended). When a subscribe for a new event type finds the list full, with
  capacity \<open>old\<close> at most 43690, and heapAlloc succeeds, the new buffer has
  \<open>(old * 3 + 1) div 2\<close> elements, rounded down, which is \<open>3 * old / 2\<close> rounded up;
  its first \<open>old\<close> elements are the old entries, the new event type is stored behind
  them at index \<open>old\<close>, the recorded capacity is the size of the new buffer and the count
  grows by one.
\<close>

theorem evtSubHandle_grows_list:
  assumes ok: "task_ok task"
    and full: "subbedEvtListSz task = subbedEvtCount task"
    and absent: "evt \<notin> set (subscribed task)"
    and small: "unat (subbedEvtListSz task) \<le> 43690"
  shows "\<exists>buf. subbedEvents (evtSubHandle True EVT_SUBSCRIBE_TO_EVT evt task) = HeapList buf \<and>
           length buf = (unat (subbedEvtListSz task) * 3 + 1) div 2 \<and>
           length buf = nat \<lceil>real (unat (subbedEvtListSz task)) * 3 / 2\<rceil> \<and>
           take (unat (subbedEvtListSz task)) buf
             = take (unat (subbedEvtListSz task)) (list_of (subbedEvents task)) \<and>
           buf ! unat (subbedEvtListSz task) = evt \<and>
           unat (subbedEvtListSz (evtSubHandle True EVT_SUBSCRIBE_TO_EVT evt task)) = length buf \<and>
           unat (subbedEvtCount (evtSubHandle True EVT_SUBSCRIBE_TO_EVT evt task))
             = unat (subbedEvtCount task) + 1 \<and>
           subscribed (evtSubHandle True EVT_SUBSCRIBE_TO_EVT evt task) = subscribed task @ [evt]"
proof -
  define old where "old = unat (subbedEvtListSz task)"
  define buf0 where
    "buf0 = take old (list_of (subbedEvents task)) @ replicate ((old * 3 + 1) div 2 - old) 0"
  let ?t' = "evtSubHandle True EVT_SUBSCRIBE_TO_EVT evt task"
  from ok have pos: "0 < old" and sl: "old \<le> length (list_of (subbedEvents task))"
    by (simp_all add: task_ok_def old_def)
  from small have sm: "(old * 3 + 1) div 2 < 65536" by (simp add: old_def)
  have gt: "old < (old * 3 + 1) div 2" using pos by simp
  note g = evtSubHandle_sub_full_grow [OF sl [unfolded old_def] full absent]
  have lb: "length buf0 = (old * 3 + 1) div 2"
    using g(1) by (simp add: buf0_def old_def)
  have tk: "take old buf0 = take old (list_of (subbedEvents task))"
    using g(2) by (simp add: buf0_def old_def)
  note gg = g(3) [OF pos [unfolded old_def] sm [unfolded old_def], folded old_def, folded buf0_def]
  from gg have eq: "?t' = task \<lparr> subbedEvents := HeapList (buf0[old := evt]),
        subbedEvtListSz := ucast ((ucast (subbedEvtListSz task) * 3 + 1) div 2 :: u32),
        subbedEvtCount := subbedEvtCount task + 1 \<rparr>" by blast
  from gg have uz: "unat (ucast ((ucast (subbedEvtListSz task) * 3 + 1) div 2 :: u32) :: u16)
        = (old * 3 + 1) div 2" by blast
  from gg have uc: "unat (subbedEvtCount task + 1) = old + 1" by blast
  from gg have su: "subscribed ?t' = subscribed task @ [evt]" by blast
  have e1: "subbedEvents ?t' = HeapList (buf0[old := evt])" by (subst eq) simp
  have e2: "unat (subbedEvtListSz ?t') = (old * 3 + 1) div 2" by (subst eq) (simp add: uz)
  have e3: "unat (subbedEvtCount ?t') = old + 1" by (subst eq) (simp add: uc)
  have co: "unat (subbedEvtCount task) = old" using full by (simp add: old_def)
  have "length (buf0[old := evt]) = (old * 3 + 1) div 2" using lb by simp
  moreover have "take old (buf0[old := evt]) = take old (list_of (subbedEvents task))"
    using tk by simp
  moreover have "(buf0[old := evt]) ! old = evt" using lb gt by simp
  ultimately show ?thesis
    unfolding old_def [symmetric]
    using e1 e2 e3 su co grow_size_is_ceiling [of old]
    by (intro exI [of _ "buf0[old := evt]"]) simp
qed

theorem evtSubHandle_grows_list_witness:
  "subscribed (evtSubHandle True EVT_SUBSCRIBE_TO_EVT 307 full_task)
     = [301, 302, 303, 304, 305, 306, 307] \<and>
   unat (subbedEvtListSz (evtSubHandle True EVT_SUBSCRIBE_TO_EVT 307 full_task)) = 9 \<and>
   unat (subbedEvtCount (evtSubHandle True EVT_SUBSCRIBE_TO_EVT 307 full_task)) = 7"
proof -
  have absent: "307 \<notin> set (subscribed full_task)" by (simp add: full_task_facts(4))
  have small: "unat (subbedEvtListSz full_task) \<le> 43690" by (simp add: full_task_facts(5))
  from evtSubHandle_grows_list [OF full_task_facts(1) full_task_facts(3) absent small]
  show ?thesis by (auto simp: full_task_facts(4,5,6))
qed

text \<open>
  C8 as stated fails on the size: from capacity 6 the new buffer has 9 elements, whereas
  \<open>(6 * 3 + 1) / 2\<close> rounded up is 10.
\<close>

theorem evtSubHandle_grows_list_counterexample:
  "length (list_of (subbedEvents (evtSubHandle True EVT_SUBSCRIBE_TO_EVT 307 full_task))) = 9 \<and>
   nat \<lceil>(real (unat (subbedEvtListSz full_task)) * 3 + 1) / 2\<rceil> = 10"
proof -
  have f: "subbedEvtFind [301, 302, 303, 304, 305, 306] 6 307 0 = 6"
    by (simp add: subbedEvtFind.simps)
  have "length (list_of (subbedEvents (evtSubHandle True EVT_SUBSCRIBE_TO_EVT 307 full_task))) = 9"
    by (simp add: evtSubHandle_def full_task_def f Let_def)
  moreover have "nat \<lceil>(real (unat (subbedEvtListSz full_task)) * 3 + 1) / 2\<rceil> = 10"
    by (simp add: full_task_def)
  ultimately show ?thesis by simp
qed

section \<open>Properties of the dispatch loop\<close>

lemma osTaskFindByTid_tids:
  "map tid a = map tid b \<Longrightarrow> osTaskFindByTid a t = osTaskFindByTid b t"
proof (induction a arbitrary: b)
  case Nil
  then show ?case by simp
next
  case (Cons x xs)
  then obtain y ys where b: "b = y # ys" by (cases b) auto
  with Cons.prems have "tid x = tid y" "map tid xs = map tid ys" by simp_all
  with Cons.IH [of ys] show ?case by (simp add: b)
qed

lemma freeActionOf_tids:
  "map tid a = map tid b \<Longrightarrow> freeActionOf a ty d fi = freeActionOf b ty d fi"
  by (simp add: freeActionOf_def osTaskFindByTid_tids [of a b] split: TaggedPtr.splits)

lemma evtSubHandle_tid: "tid (evtSubHandle a ty e t) = tid t"
  by (simp add: evtSubHandle_def Let_def)

lemma map_tid_update:
  "tid x = tid (xs ! i) \<Longrightarrow> map tid (xs[i := x]) = map tid xs"
proof (induction xs arbitrary: i)
  case Nil
  then show ?case by simp
next
  case (Cons y ys)
  then show ?case by (cases i) simp_all
qed

lemma code_step_refl: "code_step st st"
  by (simp add: code_step_def)

lemma code_step_trans:
  assumes "code_step a b" "code_step b c"
  shows "code_step a c"
proof -
  from assms(1) obtain r1 where r1: "free_calls b = free_calls a @ r1" "\<forall>x \<in> set r1. fst x = ByRetainer"
    by (auto simp: code_step_def)
  from assms(2) obtain r2 where r2: "free_calls c = free_calls b @ r2" "\<forall>x \<in> set r2. fst x = ByRetainer"
    by (auto simp: code_step_def)
  have ap: "\<exists>rest. free_calls c = free_calls a @ rest \<and> (\<forall>x \<in> set rest. fst x = ByRetainer)"
    using r1 r2 by (intro exI [of _ "r1 @ r2"]) auto
  from assms have ts: "mTasks c = mTasks a" by (simp add: code_step_def)
  from assms have
    "(mCurEvtEventFreeingInfo c = mCurEvtEventFreeingInfo a \<and> handed_out c = handed_out a) \<or>
     (\<exists>info. mCurEvtEventFreeingInfo a = Some info \<and> mCurEvtEventFreeingInfo c = None \<and>
             handed_out c = handed_out a @ [info])"
    unfolding code_step_def by (elim conjE disjE exE) auto
  with ap ts show ?thesis unfolding code_step_def by blast
qed

lemma code_step_retain: "code_step st (snd (osRetainCurrentEvent st))"
  by (cases "mCurEvtEventFreeingInfo st") (simp_all add: osRetainCurrentEvent_def code_step_def)

lemma code_step_logged:
  "code_step st (case due of None \<Rightarrow> st
                 | Some a \<Rightarrow> st \<lparr> free_calls := free_calls st @ [(ByRetainer, a)] \<rparr>)"
  by (cases due) (simp_all add: code_step_def)

lemma code_steps:
  "code_step st (runCall c st)"
  "code_step st (runCode cs st)"
  "code_step (st \<lparr> free_calls := free_calls st @ [(who, act)] \<rparr>) (invokeFree who act cb st)"
  "code_step (case freeActionOf (mTasks st) ty d fi of None \<Rightarrow> st
              | Some a \<Rightarrow> st \<lparr> free_calls := free_calls st @ [(who, a)] \<rparr>)
             (handleEventFreeing who ty d fi cb st)"
proof (induction c st and cs st and who act cb st and who ty d fi cb st
    rule: runCall_runCode_invokeFree_handleEventFreeing.induct)
  case (1 st)
  show ?case by (simp add: code_step_retain)
next
  case (2 evtType evtData info cb st)
  from code_step_trans [OF code_step_logged 2] show ?case by simp
next
  case (3 st)
  show ?case by (simp add: code_step_refl)
next
  case (4 c cs st)
  from code_step_trans [OF 4(1) 4(2)] show ?case by simp
next
  case (5 who act cb st)
  then show ?case by simp
next
  case (6 who evtType evtData evtFreeData cb st)
  show ?case
  proof (cases evtFreeData)
    case (TagPtr p)
    show ?thesis
    proof (cases "p = 0")
      case True
      with TagPtr show ?thesis by (simp add: freeActionOf_def code_step_refl)
    next
      case False
      with TagPtr have nz: "\<not> ((taggedPtrIsPtr evtFreeData \<and> taggedPtrToPtr evtFreeData = 0) \<or>
                (taggedPtrIsUint evtFreeData \<and> taggedPtrToUint evtFreeData = 0))" by simp
      from TagPtr have ip: "taggedPtrIsPtr evtFreeData" by simp
      from 6(1) [OF nz ip] TagPtr False show ?thesis by (simp add: freeActionOf_def)
    qed
  next
    case (TagUint u)
    show ?thesis
    proof (cases "u = 0")
      case True
      with TagUint show ?thesis by (simp add: freeActionOf_def code_step_refl)
    next
      case False
      with TagUint have nz: "\<not> ((taggedPtrIsPtr evtFreeData \<and> taggedPtrToPtr evtFreeData = 0) \<or>
                (taggedPtrIsUint evtFreeData \<and> taggedPtrToUint evtFreeData = 0))" by simp
      from TagUint have np: "\<not> taggedPtrIsPtr evtFreeData" by simp
      show ?thesis
      proof (cases "osTaskFindByTid (mTasks st) (taggedPtrToUint evtFreeData)")
        case None
        with TagUint False show ?thesis by (simp add: freeActionOf_def code_step_refl)
      next
        case (Some i)
        from 6(2) [OF nz np Some] TagUint False Some show ?thesis
          by (simp add: freeActionOf_def)
      qed
    qed
  qed
qed

text \<open>handleEventFreeing makes the free call that the free-info stands for, or none.\<close>

lemma handleEventFreeing_due:
  "handleEventFreeing who ty d fi cb st =
     (case freeActionOf (mTasks st) ty d fi of
        None \<Rightarrow> st
      | Some a \<Rightarrow> runCode cb (st \<lparr> free_calls := free_calls st @ [(who, a)] \<rparr>))"
  by (cases fi) (auto simp: freeActionOf_def split: option.splits)

lemma code_step_pass_step: "code_step a b \<Longrightarrow> pass_step a b"
  unfolding code_step_def pass_step_def by fastforce

lemma pass_step_refl: "pass_step st st"
  by (simp add: pass_step_def)

lemma pass_step_trans:
  assumes "pass_step a b" "pass_step b c"
  shows "pass_step a c"
proof -
  from assms(1) obtain r1 where r1: "free_calls b = free_calls a @ r1" "\<forall>x \<in> set r1. fst x \<noteq> ByLoop"
    by (auto simp: pass_step_def)
  from assms(2) obtain r2 where r2: "free_calls c = free_calls b @ r2" "\<forall>x \<in> set r2. fst x \<noteq> ByLoop"
    by (auto simp: pass_step_def)
  have ap: "\<exists>rest. free_calls c = free_calls a @ rest \<and> (\<forall>x \<in> set rest. fst x \<noteq> ByLoop)"
    using r1 r2 by (intro exI [of _ "r1 @ r2"]) auto
  from assms have ts: "map tid (mTasks c) = map tid (mTasks a)" by (simp add: pass_step_def)
  from assms have
    "(mCurEvtEventFreeingInfo c = mCurEvtEventFreeingInfo a \<and> handed_out c = handed_out a) \<or>
     (\<exists>info. mCurEvtEventFreeingInfo a = Some info \<and> mCurEvtEventFreeingInfo c = None \<and>
             handed_out c = handed_out a @ [info])"
    unfolding pass_step_def by (elim conjE disjE exE) auto
  with ap ts show ?thesis unfolding pass_step_def by blast
qed

lemma code_step_broadcastEvt: "code_step st (broadcastEvt env user_evt tasks st)"
proof (induction tasks arbitrary: st)
  case Nil
  show ?case by (simp add: code_step_refl)
next
  case (Cons task tasks)
  show ?case
    using Cons [of st] Cons [of "runCode (handler_code env (tid task)) st"]
      code_step_trans [OF code_steps(2) [of st "handler_code env (tid task)"]]
    by (auto simp: Let_def)
qed

text \<open>While a private event is delivered the slot is empty, so no retain succeeds.\<close>

lemma code_step_empty_slot:
  assumes "code_step st st'" "mCurEvtEventFreeingInfo st = None"
  shows "mCurEvtEventFreeingInfo st' = None \<and> handed_out st' = handed_out st"
  using assms by (auto simp: code_step_def)

lemma deliverPrivateEvt_keeps:
  "handed_out (deliverPrivateEvt env da st) = handed_out st \<and>
   mCurEvtEventFreeingInfo (deliverPrivateEvt env da st) = mCurEvtEventFreeingInfo st \<and>
   mTasks (deliverPrivateEvt env da st) = mTasks st \<and>
   (\<exists>rest. free_calls (deliverPrivateEvt env da st) = free_calls st @ rest \<and>
           (\<forall>x \<in> set rest. fst x = ByRetainer))"
proof (cases "osTaskFindByTid (mTasks st) (privateEvt_toTid da)")
  case None
  then show ?thesis by (simp add: deliverPrivateEvt_def)
next
  case (Some i)
  let ?st1 = "st \<lparr> mCurEvtEventFreeingInfo := None \<rparr>"
  let ?st2 = "runCode (internal_code env) ?st1"
  have cs: "code_step ?st1 ?st2" by (rule code_steps(2))
  from code_step_empty_slot [OF cs] have h: "handed_out ?st2 = handed_out st" by simp
  from cs have a: "\<exists>rest. free_calls ?st2 = free_calls st @ rest \<and> (\<forall>x \<in> set rest. fst x = ByRetainer)"
    by (simp add: code_step_def)
  from cs have t: "mTasks ?st2 = mTasks st" by (simp add: code_step_def)
  have d: "deliverPrivateEvt env da st = ?st2 \<lparr> mCurEvtEventFreeingInfo := mCurEvtEventFreeingInfo st \<rparr>"
    using Some by (simp add: deliverPrivateEvt_def Let_def)
  show ?thesis unfolding d using h a t by simp
qed

text \<open>The handler of a private event runs on an empty slot from its first call to its last.\<close>

lemma runCode_append: "runCode (cs1 @ cs2) st = runCode cs2 (runCode cs1 st)"
  by (induction cs1 arbitrary: st) simp_all

lemma retain_fails_on_empty_slot:
  "fst (osRetainCurrentEvent (runCode cs (st \<lparr> mCurEvtEventFreeingInfo := None \<rparr>))) = False"
proof -
  have "code_step (st \<lparr> mCurEvtEventFreeingInfo := None \<rparr>)
          (runCode cs (st \<lparr> mCurEvtEventFreeingInfo := None \<rparr>))"
    by (rule code_steps(2))
  from code_step_empty_slot [OF this]
  show ?thesis by (simp add: osRetainCurrentEvent_def)
qed

lemma private_case_unfold:
  "osInternalEvtHandle env EVT_PRIVATE_EVT da st =
     handleEventFreeing ByPrivateEvt (privateEvt_evtType da) (privateEvt_evtData da)
       (privateEvt_evtFreeInfo da) (private_free_code env) (deliverPrivateEvt env da st)"
  by (simp add: osInternalEvtHandle_def EVT_PRIVATE_EVT_def EVT_SUBSCRIBE_TO_EVT_def
      EVT_UNSUBSCRIBE_TO_EVT_def EVT_DEFERRED_CALLBACK_def)

lemma private_case_steps:
  fixes env da st
  defines "due \<equiv> freeActionOf (mTasks st) (privateEvt_evtType da) (privateEvt_evtData da)
                   (privateEvt_evtFreeInfo da)"
  defines "d1 \<equiv> (case due of None \<Rightarrow> deliverPrivateEvt env da st
                  | Some a \<Rightarrow> (deliverPrivateEvt env da st)
                      \<lparr> free_calls := free_calls (deliverPrivateEvt env da st) @ [(ByPrivateEvt, a)] \<rparr>)"
  shows "code_step d1 (osInternalEvtHandle env EVT_PRIVATE_EVT da st)"
    and "mTasks d1 = mTasks st"
    and "handed_out d1 = handed_out st"
    and "mCurEvtEventFreeingInfo d1 = mCurEvtEventFreeingInfo st"
    and "\<exists>rest. free_calls d1 = free_calls st @ rest @
                   (case due of None \<Rightarrow> [] | Some a \<Rightarrow> [(ByPrivateEvt, a)]) \<and>
                (\<forall>x \<in> set rest. fst x = ByRetainer)"
proof -
  let ?d = "deliverPrivateEvt env da st"
  note k = deliverPrivateEvt_keeps [of env da st]
  from k have t: "mTasks ?d = mTasks st" by blast
  have "code_step (case freeActionOf (mTasks ?d) (privateEvt_evtType da) (privateEvt_evtData da)
                          (privateEvt_evtFreeInfo da) of None \<Rightarrow> ?d
              | Some a \<Rightarrow> ?d \<lparr> free_calls := free_calls ?d @ [(ByPrivateEvt, a)] \<rparr>)
             (handleEventFreeing ByPrivateEvt (privateEvt_evtType da) (privateEvt_evtData da)
                (privateEvt_evtFreeInfo da) (private_free_code env) ?d)"
    by (rule code_steps(4))
  then show "code_step d1 (osInternalEvtHandle env EVT_PRIVATE_EVT da st)"
    by (simp only: private_case_unfold d1_def due_def t)
  show "mTasks d1 = mTasks st" using t by (cases due) (simp_all add: d1_def)
  show "handed_out d1 = handed_out st" using k by (cases due) (simp_all add: d1_def)
  show "mCurEvtEventFreeingInfo d1 = mCurEvtEventFreeingInfo st"
    using k by (cases due) (simp_all add: d1_def)
  from k obtain rest where "free_calls ?d = free_calls st @ rest" "\<forall>x \<in> set rest. fst x = ByRetainer"
    by blast
  then show "\<exists>rest. free_calls d1 = free_calls st @ rest @
                   (case due of None \<Rightarrow> [] | Some a \<Rightarrow> [(ByPrivateEvt, a)]) \<and>
                (\<forall>x \<in> set rest. fst x = ByRetainer)"
    by (cases due) (auto simp: d1_def)
qed

lemma osInternalEvtHandle_pass_step: "pass_step st (osInternalEvtHandle env evtType da st)"
proof -
  consider (sub) "evtType = EVT_SUBSCRIBE_TO_EVT \<or> evtType = EVT_UNSUBSCRIBE_TO_EVT"
    | (deferred) "\<not> (evtType = EVT_SUBSCRIBE_TO_EVT \<or> evtType = EVT_UNSUBSCRIBE_TO_EVT)"
        "evtType = EVT_DEFERRED_CALLBACK"
    | (priv) "\<not> (evtType = EVT_SUBSCRIBE_TO_EVT \<or> evtType = EVT_UNSUBSCRIBE_TO_EVT)"
        "evtType \<noteq> EVT_DEFERRED_CALLBACK" "evtType = EVT_PRIVATE_EVT"
    | (other) "\<not> (evtType = EVT_SUBSCRIBE_TO_EVT \<or> evtType = EVT_UNSUBSCRIBE_TO_EVT)"
        "evtType \<noteq> EVT_DEFERRED_CALLBACK" "evtType \<noteq> EVT_PRIVATE_EVT"
    by blast
  then show ?thesis
  proof cases
    case sub
    then show ?thesis
      by (auto simp: osInternalEvtHandle_def pass_step_def map_tid_update evtSubHandle_tid
          split: option.splits)
  next
    case deferred
    then show ?thesis
      using code_step_pass_step [OF code_steps(2) [of st "internal_code env"]]
      by (simp add: osInternalEvtHandle_def)
  next
    case priv
    note s = private_case_steps [of env da st]
    let ?due = "freeActionOf (mTasks st) (privateEvt_evtType da) (privateEvt_evtData da)
                   (privateEvt_evtFreeInfo da)"
    let ?d1 = "case ?due of None \<Rightarrow> deliverPrivateEvt env da st
               | Some a \<Rightarrow> (deliverPrivateEvt env da st)
                   \<lparr> free_calls := free_calls (deliverPrivateEvt env da st) @ [(ByPrivateEvt, a)] \<rparr>"
    from s(5) obtain rest where
      r: "free_calls ?d1 = free_calls st @ rest @
            (case ?due of None \<Rightarrow> [] | Some a \<Rightarrow> [(ByPrivateEvt, a)])"
         "\<forall>x \<in> set rest. fst x = ByRetainer" by blast
    have "\<forall>x \<in> set (rest @ (case ?due of None \<Rightarrow> [] | Some a \<Rightarrow> [(ByPrivateEvt, a)])). fst x \<noteq> ByLoop"
      using r(2) by (cases ?due) auto
    with r(1) s(2,3,4) have 1: "pass_step st ?d1"
      unfolding pass_step_def by (metis append_assoc)
    have 2: "pass_step ?d1 (osInternalEvtHandle env EVT_PRIVATE_EVT da st)"
      by (rule code_step_pass_step [OF s(1)])
    from pass_step_trans [OF 1 2] priv show ?thesis by simp
  next
    case other
    then show ?thesis by (simp add: osInternalEvtHandle_def pass_step_refl)
  qed
qed

lemma osMainDequeueLoop_deliver_pass_step:
  "pass_step (st \<lparr> mCurEvtEventFreeingInfo := Some evtFreeingInfo \<rparr>)
     (osMainDequeueLoop_deliver first_user discardable env evtType evtData evtFreeingInfo da st)"
  unfolding osMainDequeueLoop_deliver_def Let_def
  using osInternalEvtHandle_pass_step code_step_pass_step [OF code_step_broadcastEvt]
  by simp

lemma find303: "subbedEvtFind [301, 302, 303, 304, 305, 306] 6 303 0 = 2"
  by (simp add: subbedEvtFind.simps)

lemma find300: "subbedEvtFind [301, 302, 303, 304, 305, 306] 6 300 0 = 6"
  by (simp add: subbedEvtFind.simps)

text \<open>
  C2 (as amended). Take one pass of the dispatch loop on an event, whatever the code that
  the pass runs does. By the end of delivery either no call of osRetainCurrentEvent has
  returned true, or exactly one has, and the free-info it copied out is the event's. In
  the first case the slot is still set and the loop, after delivery, makes the free call
  that the free-info stands for, exactly once: the call of the free function on the event
  data, or the call of the owner's handler; it makes no free call when the free-info is
  null or names an owner that no live task has. In the second case the slot is empty and
  the loop makes no free call; a call of osFreeRetainedEvent by the holder then makes the
  free call that the free-info stands for, once. (A retain made by the code that the
  loop's own free step runs is left out of this statement.)
\<close>

theorem osMainDequeueLoop_frees_once:
  "(let D = osMainDequeueLoop_deliver first_user discardable env evtType evtData evtFreeingInfo da st;
        L = osMainDequeueLoop first_user discardable env evtType evtData evtFreeingInfo da st;
        due = freeActionOf (mTasks st) evtType evtData evtFreeingInfo
    in (handed_out D = handed_out st \<or> handed_out D = handed_out st @ [evtFreeingInfo]) \<and>
       (handed_out D = handed_out st \<longrightarrow>
          mCurEvtEventFreeingInfo D = Some evtFreeingInfo \<and>
          L = (case due of None \<Rightarrow> D
               | Some a \<Rightarrow> runCode (free_code env)
                             (D \<lparr> free_calls := free_calls D @ [(ByLoop, a)] \<rparr>))
                \<lparr> mCurEvtEventFreeingInfo := None \<rparr> \<and>
          [x \<leftarrow> free_calls L. fst x = ByLoop] =
            [x \<leftarrow> free_calls st. fst x = ByLoop] @
            (case due of None \<Rightarrow> [] | Some a \<Rightarrow> [(ByLoop, a)])) \<and>
       (handed_out D = handed_out st @ [evtFreeingInfo] \<longrightarrow>
          mCurEvtEventFreeingInfo D = None \<and>
          L = D \<and>
          [x \<leftarrow> free_calls L. fst x = ByLoop] = [x \<leftarrow> free_calls st. fst x = ByLoop] \<and>
          osFreeRetainedEvent evtType evtData evtFreeingInfo cb L =
            (case due of None \<Rightarrow> L
             | Some a \<Rightarrow> runCode cb (L \<lparr> free_calls := free_calls L @ [(ByRetainer, a)] \<rparr>)) \<and>
          (\<exists>rest. free_calls (osFreeRetainedEvent evtType evtData evtFreeingInfo cb L) =
                    free_calls L @ (case due of None \<Rightarrow> [] | Some a \<Rightarrow> (ByRetainer, a) # rest) \<and>
                  (\<forall>x \<in> set rest. fst x = ByRetainer))))"
proof -
  define D where
    "D = osMainDequeueLoop_deliver first_user discardable env evtType evtData evtFreeingInfo da st"
  define L where
    "L = osMainDequeueLoop first_user discardable env evtType evtData evtFreeingInfo da st"
  define due where "due = freeActionOf (mTasks st) evtType evtData evtFreeingInfo"
  let ?st1 = "st \<lparr> mCurEvtEventFreeingInfo := Some evtFreeingInfo \<rparr>"
  have ps: "pass_step ?st1 D"
    unfolding D_def by (rule osMainDequeueLoop_deliver_pass_step)
  then obtain r1 where r1: "free_calls D = free_calls st @ r1" "\<forall>x \<in> set r1. fst x \<noteq> ByLoop"
    by (auto simp: pass_step_def)
  from ps have tids: "map tid (mTasks D) = map tid (mTasks st)" by (simp add: pass_step_def)
  have dueD: "freeActionOf (mTasks D) evtType evtData evtFreeingInfo = due"
    unfolding due_def by (rule freeActionOf_tids [OF tids])
  from ps have dich:
    "(mCurEvtEventFreeingInfo D = Some evtFreeingInfo \<and> handed_out D = handed_out st) \<or>
     (mCurEvtEventFreeingInfo D = None \<and> handed_out D = handed_out st @ [evtFreeingInfo])"
    by (auto simp: pass_step_def)
  have Leq: "L = (if mCurEvtEventFreeingInfo D \<noteq> None
                  then handleEventFreeing ByLoop evtType evtData evtFreeingInfo (free_code env) D
                  else D) \<lparr> mCurEvtEventFreeingInfo := None \<rparr>"
    by (simp add: L_def D_def osMainDequeueLoop_def Let_def)
  have a: "mCurEvtEventFreeingInfo D = Some evtFreeingInfo \<and>
           L = (case due of None \<Rightarrow> D
               | Some a \<Rightarrow> runCode (free_code env)
                             (D \<lparr> free_calls := free_calls D @ [(ByLoop, a)] \<rparr>))
                \<lparr> mCurEvtEventFreeingInfo := None \<rparr> \<and>
           [x \<leftarrow> free_calls L. fst x = ByLoop] = [x \<leftarrow> free_calls st. fst x = ByLoop] @
             (case due of None \<Rightarrow> [] | Some a \<Rightarrow> [(ByLoop, a)])"
    if h: "handed_out D = handed_out st"
  proof -
    from dich h have slot: "mCurEvtEventFreeingInfo D = Some evtFreeingInfo" by auto
    have Lx: "L = (case due of None \<Rightarrow> D
               | Some a \<Rightarrow> runCode (free_code env)
                             (D \<lparr> free_calls := free_calls D @ [(ByLoop, a)] \<rparr>))
                \<lparr> mCurEvtEventFreeingInfo := None \<rparr>"
      unfolding Leq handleEventFreeing_due dueD using slot by simp
    have "code_step (case due of None \<Rightarrow> D
                     | Some a \<Rightarrow> D \<lparr> free_calls := free_calls D @ [(ByLoop, a)] \<rparr>)
            (handleEventFreeing ByLoop evtType evtData evtFreeingInfo (free_code env) D)"
      using code_steps(4) [where st = D and ty = evtType and d = evtData and fi = evtFreeingInfo
          and who = ByLoop and cb = "free_code env"]
      unfolding dueD .
    then obtain r2 where r2:
      "free_calls (handleEventFreeing ByLoop evtType evtData evtFreeingInfo (free_code env) D)
         = free_calls D @ (case due of None \<Rightarrow> [] | Some a \<Rightarrow> [(ByLoop, a)]) @ r2"
      "\<forall>x \<in> set r2. fst x = ByRetainer"
      by (cases due) (auto simp: code_step_def)
    have "free_calls L = free_calls st @ r1 @ (case due of None \<Rightarrow> [] | Some a \<Rightarrow> [(ByLoop, a)]) @ r2"
      using slot r1(1) r2(1) by (simp add: Leq)
    then have "[x \<leftarrow> free_calls L. fst x = ByLoop] = [x \<leftarrow> free_calls st. fst x = ByLoop] @
             (case due of None \<Rightarrow> [] | Some a \<Rightarrow> [(ByLoop, a)])"
      using r1(2) r2(2) by (cases due) simp_all
    with slot Lx show ?thesis by simp
  qed
  have b: "mCurEvtEventFreeingInfo D = None \<and>
           L = D \<and>
           [x \<leftarrow> free_calls L. fst x = ByLoop] = [x \<leftarrow> free_calls st. fst x = ByLoop] \<and>
           osFreeRetainedEvent evtType evtData evtFreeingInfo cb L =
            (case due of None \<Rightarrow> L
             | Some a \<Rightarrow> runCode cb (L \<lparr> free_calls := free_calls L @ [(ByRetainer, a)] \<rparr>)) \<and>
           (\<exists>rest. free_calls (osFreeRetainedEvent evtType evtData evtFreeingInfo cb L) =
                    free_calls L @ (case due of None \<Rightarrow> [] | Some a \<Rightarrow> (ByRetainer, a) # rest) \<and>
                  (\<forall>x \<in> set rest. fst x = ByRetainer))"
    if h: "handed_out D = handed_out st @ [evtFreeingInfo]"
  proof -
    from dich h have slot: "mCurEvtEventFreeingInfo D = None" by auto
    then have LD: "L = D" by (simp add: Leq)
    then have "free_calls L = free_calls st @ r1" using r1(1) by simp
    then have f: "[x \<leftarrow> free_calls L. fst x = ByLoop] = [x \<leftarrow> free_calls st. fst x = ByLoop]"
      using r1(2) by simp
    from LD have "mTasks L = mTasks D" by simp
    then have dueL: "freeActionOf (mTasks L) evtType evtData evtFreeingInfo = due"
      using dueD by simp
    have "code_step (case due of None \<Rightarrow> L
                     | Some a \<Rightarrow> L \<lparr> free_calls := free_calls L @ [(ByRetainer, a)] \<rparr>)
            (osFreeRetainedEvent evtType evtData evtFreeingInfo cb L)"
      using code_steps(4) [where st = L and ty = evtType and d = evtData and fi = evtFreeingInfo
          and who = ByRetainer and cb = cb]
      unfolding dueL osFreeRetainedEvent_def .
    then obtain r3 where r3:
      "free_calls (osFreeRetainedEvent evtType evtData evtFreeingInfo cb L)
         = free_calls L @ (case due of None \<Rightarrow> [] | Some a \<Rightarrow> [(ByRetainer, a)]) @ r3"
      "\<forall>x \<in> set r3. fst x = ByRetainer"
      by (cases due) (auto simp: code_step_def)
    have "\<exists>rest. free_calls (osFreeRetainedEvent evtType evtData evtFreeingInfo cb L) =
                    free_calls L @ (case due of None \<Rightarrow> [] | Some a \<Rightarrow> (ByRetainer, a) # rest) \<and>
                  (\<forall>x \<in> set rest. fst x = ByRetainer)"
    proof (cases due)
      case None
      have "osFreeRetainedEvent evtType evtData evtFreeingInfo cb L = L"
        using dueL None
        by (auto simp: osFreeRetainedEvent_def freeActionOf_def
            split: TaggedPtr.splits if_splits option.splits)
      with None show ?thesis by (intro exI [of _ "[]"]) simp
    next
      case (Some a)
      with r3 show ?thesis by (intro exI [of _ r3]) simp
    qed
    moreover have "osFreeRetainedEvent evtType evtData evtFreeingInfo cb L =
            (case due of None \<Rightarrow> L
             | Some a \<Rightarrow> runCode cb (L \<lparr> free_calls := free_calls L @ [(ByRetainer, a)] \<rparr>))"
      unfolding osFreeRetainedEvent_def handleEventFreeing_due dueL by simp
    ultimately show ?thesis using slot f LD by blast
  qed
  from dich have "handed_out D = handed_out st \<or> handed_out D = handed_out st @ [evtFreeingInfo]"
    by auto
  with a b show ?thesis
    unfolding Let_def D_def [symmetric] L_def [symmetric] due_def [symmetric] by blast
qed

theorem osMainDequeueLoop_frees_once_witness:
  "[x \<leftarrow> free_calls (osMainDequeueLoop 256 0x80000000 (quiet_env True) 303 7 (TagPtr 200)
        zeroed_InternalThing seos_full_task). fst x = ByLoop] = [(ByLoop, CallEventFreeF 200 7)] \<and>
   [x \<leftarrow> free_calls (osMainDequeueLoop 256 0x80000000 (quiet_env True) 303 7 (TagUint 1)
        zeroed_InternalThing seos_full_task). fst x = ByLoop]
     = [(ByLoop, CallAppFreeEvtData 0 303 7)] \<and>
   [x \<leftarrow> free_calls (osMainDequeueLoop 256 0x80000000 (quiet_env True) 303 7 (TagUint 5)
        zeroed_InternalThing seos_full_task). fst x = ByLoop] = [] \<and>
   [x \<leftarrow> free_calls (osMainDequeueLoop 256 0x80000000 retain_in_handler_env 303 7 (TagPtr 200)
        zeroed_InternalThing seos_full_task). fst x = ByLoop] = [] \<and>
   free_calls (osFreeRetainedEvent 303 7 (TagPtr 200) []
      (osMainDequeueLoop 256 0x80000000 retain_in_handler_env 303 7 (TagPtr 200)
         zeroed_InternalThing seos_full_task)) = [(ByRetainer, CallEventFreeF 200 7)]"
proof -
  have m: "(303 :: u32) AND NOT 0x80000000 = 303" by simp
  have D1: "osMainDequeueLoop_deliver 256 0x80000000 (quiet_env True) 303 7 info
             zeroed_InternalThing seos_full_task
           = seos_full_task \<lparr> mCurEvtEventFreeingInfo := Some info \<rparr>" for info
    by (simp add: osMainDequeueLoop_deliver_def m Let_def)
       (simp add: seos_full_task_def full_task_def find303 quiet_env_def)
  have D2: "osMainDequeueLoop_deliver 256 0x80000000 retain_in_handler_env 303 7 (TagPtr 200)
             zeroed_InternalThing seos_full_task
           = seos_full_task \<lparr> handed_out := [TagPtr 200] \<rparr>"
    by (simp add: osMainDequeueLoop_deliver_def m Let_def)
       (simp add: seos_full_task_def full_task_def find303 retain_in_handler_env_def
          osRetainCurrentEvent_def)
  have h1: "handed_out (osMainDequeueLoop_deliver 256 0x80000000 (quiet_env True) 303 7 info
             zeroed_InternalThing seos_full_task) = handed_out seos_full_task" for info
    unfolding D1 by simp
  have h2: "handed_out (osMainDequeueLoop_deliver 256 0x80000000 retain_in_handler_env 303 7
             (TagPtr 200) zeroed_InternalThing seos_full_task)
            = handed_out seos_full_task @ [TagPtr 200]"
    unfolding D2 by (simp add: seos_full_task_def)
  have e: "free_calls seos_full_task = []" by (simp add: seos_full_task_def)
  have due: "freeActionOf (mTasks seos_full_task) 303 7 (TagPtr 200) = Some (CallEventFreeF 200 7)"
    "freeActionOf (mTasks seos_full_task) 303 7 (TagUint 1) = Some (CallAppFreeEvtData 0 303 7)"
    "freeActionOf (mTasks seos_full_task) 303 7 (TagUint 5) = None"
    by (simp_all add: freeActionOf_def seos_full_task_def full_task_def)
  note u = Let_def due e h1 h2 option.case filter.simps append_Nil
  have a: "[x \<leftarrow> free_calls (osMainDequeueLoop 256 0x80000000 (quiet_env True) 303 7 (TagPtr 200)
        zeroed_InternalThing seos_full_task). fst x = ByLoop] = [(ByLoop, CallEventFreeF 200 7)]"
    using osMainDequeueLoop_frees_once [of 256 "0x80000000" "quiet_env True" 303 7 "TagPtr 200"
      zeroed_InternalThing seos_full_task "[]"]
    unfolding u by blast
  have a1: "[x \<leftarrow> free_calls (osMainDequeueLoop 256 0x80000000 (quiet_env True) 303 7 (TagUint 1)
        zeroed_InternalThing seos_full_task). fst x = ByLoop] = [(ByLoop, CallAppFreeEvtData 0 303 7)]"
    using osMainDequeueLoop_frees_once [of 256 "0x80000000" "quiet_env True" 303 7 "TagUint 1"
      zeroed_InternalThing seos_full_task "[]"]
    unfolding u by blast
  have a5: "[x \<leftarrow> free_calls (osMainDequeueLoop 256 0x80000000 (quiet_env True) 303 7 (TagUint 5)
        zeroed_InternalThing seos_full_task). fst x = ByLoop] = []"
    using osMainDequeueLoop_frees_once [of 256 "0x80000000" "quiet_env True" 303 7 "TagUint 5"
      zeroed_InternalThing seos_full_task "[]"]
    unfolding u by blast
  note t2 = osMainDequeueLoop_frees_once [of 256 "0x80000000" retain_in_handler_env 303 7 "TagPtr 200"
      zeroed_InternalThing seos_full_task "[]"]
  have b: "[x \<leftarrow> free_calls (osMainDequeueLoop 256 0x80000000 retain_in_handler_env 303 7 (TagPtr 200)
        zeroed_InternalThing seos_full_task). fst x = ByLoop] = []"
    using t2 unfolding u by blast
  have L2: "osMainDequeueLoop 256 0x80000000 retain_in_handler_env 303 7 (TagPtr 200)
             zeroed_InternalThing seos_full_task
           = seos_full_task \<lparr> handed_out := [TagPtr 200] \<rparr>"
    by (simp add: osMainDequeueLoop_def D2 Let_def) (simp add: seos_full_task_def)
  have "osFreeRetainedEvent 303 7 (TagPtr 200) []
      (osMainDequeueLoop 256 0x80000000 retain_in_handler_env 303 7 (TagPtr 200)
         zeroed_InternalThing seos_full_task)
    = runCode [] ((osMainDequeueLoop 256 0x80000000 retain_in_handler_env 303 7 (TagPtr 200)
         zeroed_InternalThing seos_full_task)
        \<lparr> free_calls := free_calls (osMainDequeueLoop 256 0x80000000 retain_in_handler_env 303 7
             (TagPtr 200) zeroed_InternalThing seos_full_task) @
           [(ByRetainer, CallEventFreeF 200 7)] \<rparr>)"
    using t2 unfolding u by blast
  then have c: "free_calls (osFreeRetainedEvent 303 7 (TagPtr 200) []
      (osMainDequeueLoop 256 0x80000000 retain_in_handler_env 303 7 (TagPtr 200)
         zeroed_InternalThing seos_full_task)) = [(ByRetainer, CallEventFreeF 200 7)]"
    unfolding L2 by (simp add: seos_full_task_def)
  from a a1 a5 b c show ?thesis by blast
qed

text \<open>
  C2 as stated fails for a handler that the pass invokes in its free step. The event
  here has type 300, which no task is subscribed to, and its free-info names task 1 as
  the owner, so the loop frees it by calling that task's handler for
  EVT\_APP\_FREE\_EVT\_DATA. The slot is cleared only after handleEventFreeing returns:
  the handler's call of osRetainCurrentEvent returns true although the loop has made the
  free call, and one later call of osFreeRetainedEvent makes the free call a second time.
\<close>

theorem osMainDequeueLoop_frees_once_counterexample:
  "handed_out (osMainDequeueLoop 256 0x80000000 retain_on_free_env 300 7 (TagUint 1)
      zeroed_InternalThing seos_full_task) = [TagUint 1] \<and>
   free_calls (osFreeRetainedEvent 300 7 (TagUint 1) []
      (osMainDequeueLoop 256 0x80000000 retain_on_free_env 300 7 (TagUint 1)
         zeroed_InternalThing seos_full_task))
     = [(ByLoop, CallAppFreeEvtData 0 300 7), (ByRetainer, CallAppFreeEvtData 0 300 7)]"
proof -
  have m: "(300 :: u32) AND NOT 0x80000000 = 300" by simp
  have D: "osMainDequeueLoop_deliver 256 0x80000000 retain_on_free_env 300 7 (TagUint 1)
             zeroed_InternalThing seos_full_task
           = seos_full_task \<lparr> mCurEvtEventFreeingInfo := Some (TagUint 1) \<rparr>"
    by (simp add: osMainDequeueLoop_deliver_def m Let_def)
       (simp add: seos_full_task_def full_task_def find300)
  have L: "osMainDequeueLoop 256 0x80000000 retain_on_free_env 300 7 (TagUint 1)
             zeroed_InternalThing seos_full_task
           = seos_full_task \<lparr> free_calls := [(ByLoop, CallAppFreeEvtData 0 300 7)],
                               handed_out := [TagUint 1] \<rparr>"
    by (simp add: osMainDequeueLoop_def D Let_def)
       (simp add: seos_full_task_def full_task_def retain_on_free_env_def osRetainCurrentEvent_def)
  show ?thesis unfolding L
    by (simp add: osFreeRetainedEvent_def seos_full_task_def full_task_def)
qed

text \<open>
  C9 (as amended). When the dispatch loop handles a private-event action, the
  private-event case makes the free call that the attached free-info stands for, exactly
  once, whether or not a task with the target tid exists; it makes no free call when the
  free-info is null or names an owner that no live task has. The event is delivered to
  the target task, if there is one, by running its handler on an emptied slot. While it
  is delivered no call of osRetainCurrentEvent returns true, whatever the handler does:
  the slot is empty from the handler's first call to its last, no free-info is handed
  out during the delivery, and the slot is afterwards what it was before. Over
  the whole case a free-info is handed out only by the code that the free call runs, and
  it is then the one in the slot, which belongs to the action that the loop dequeued;
  when no free call is made, nothing is handed out and the slot is unchanged.
\<close>

theorem private_event_free_and_retain:
  "(let d = deliverPrivateEvt env da st;
        R = osInternalEvtHandle env EVT_PRIVATE_EVT da st;
        due = freeActionOf (mTasks st) (privateEvt_evtType da) (privateEvt_evtData da)
                (privateEvt_evtFreeInfo da)
    in R = (case due of None \<Rightarrow> d
            | Some a \<Rightarrow> runCode (private_free_code env)
                          (d \<lparr> free_calls := free_calls d @ [(ByPrivateEvt, a)] \<rparr>)) \<and>
       [x \<leftarrow> free_calls R. fst x = ByPrivateEvt] =
         [x \<leftarrow> free_calls st. fst x = ByPrivateEvt] @
         (case due of None \<Rightarrow> [] | Some a \<Rightarrow> [(ByPrivateEvt, a)]) \<and>
       d = (case osTaskFindByTid (mTasks st) (privateEvt_toTid da) of
              None \<Rightarrow> st
            | Some i \<Rightarrow> (runCode (internal_code env) (st \<lparr> mCurEvtEventFreeingInfo := None \<rparr>))
                          \<lparr> mCurEvtEventFreeingInfo := mCurEvtEventFreeingInfo st \<rparr>) \<and>
       (\<forall>cs1 cs2. internal_code env = cs1 @ cs2 \<longrightarrow>
          fst (osRetainCurrentEvent (runCode cs1 (st \<lparr> mCurEvtEventFreeingInfo := None \<rparr>)))
            = False) \<and>
       handed_out d = handed_out st \<and>
       mCurEvtEventFreeingInfo d = mCurEvtEventFreeingInfo st \<and>
       (handed_out R = handed_out st \<and> mCurEvtEventFreeingInfo R = mCurEvtEventFreeingInfo st \<or>
        (\<exists>info. due \<noteq> None \<and> mCurEvtEventFreeingInfo st = Some info \<and>
                mCurEvtEventFreeingInfo R = None \<and> handed_out R = handed_out st @ [info])))"
proof -
  let ?d = "deliverPrivateEvt env da st"
  let ?R = "osInternalEvtHandle env EVT_PRIVATE_EVT da st"
  define due where "due = freeActionOf (mTasks st) (privateEvt_evtType da) (privateEvt_evtData da)
                (privateEvt_evtFreeInfo da)"
  let ?d1 = "case due of None \<Rightarrow> ?d
             | Some a \<Rightarrow> ?d \<lparr> free_calls := free_calls ?d @ [(ByPrivateEvt, a)] \<rparr>"
  note s = private_case_steps [of env da st, folded due_def]
  note k = deliverPrivateEvt_keeps [of env da st]
  from s(5) obtain r1 where
    r1: "free_calls ?d1 = free_calls st @ r1 @
           (case due of None \<Rightarrow> [] | Some a \<Rightarrow> [(ByPrivateEvt, a)])"
        "\<forall>x \<in> set r1. fst x = ByRetainer" by blast
  from s(1) obtain r2 where
    r2: "free_calls ?R = free_calls ?d1 @ r2" "\<forall>x \<in> set r2. fst x = ByRetainer"
    by (auto simp: code_step_def)
  have "free_calls ?R = free_calls st @ r1 @
           (case due of None \<Rightarrow> [] | Some a \<Rightarrow> [(ByPrivateEvt, a)]) @ r2"
    using r1(1) r2(1) by simp
  then have 1: "[x \<leftarrow> free_calls ?R. fst x = ByPrivateEvt] =
         [x \<leftarrow> free_calls st. fst x = ByPrivateEvt] @
         (case due of None \<Rightarrow> [] | Some a \<Rightarrow> [(ByPrivateEvt, a)])"
    using r1(2) r2(2) by (cases due) simp_all
  have 2: "\<forall>cs1 cs2. internal_code env = cs1 @ cs2 \<longrightarrow>
          fst (osRetainCurrentEvent (runCode cs1 (st \<lparr> mCurEvtEventFreeingInfo := None \<rparr>)))
            = False"
    by (simp add: retain_fails_on_empty_slot)
  have 5: "handed_out ?R = handed_out st \<and> mCurEvtEventFreeingInfo ?R = mCurEvtEventFreeingInfo st \<or>
        (\<exists>info. due \<noteq> None \<and> mCurEvtEventFreeingInfo st = Some info \<and>
                mCurEvtEventFreeingInfo ?R = None \<and> handed_out ?R = handed_out st @ [info])"
  proof (cases due)
    case None
    then have "?R = ?d"
      unfolding private_case_unfold
      using k
      by (auto simp: due_def freeActionOf_def split: TaggedPtr.splits if_splits option.splits)
    with k show ?thesis by simp
  next
    case (Some a)
    from s(1) s(3,4) show ?thesis unfolding code_step_def using Some by auto
  qed
  have 0: "?R = (case due of None \<Rightarrow> ?d
            | Some a \<Rightarrow> runCode (private_free_code env)
                          (?d \<lparr> free_calls := free_calls ?d @ [(ByPrivateEvt, a)] \<rparr>))"
    unfolding private_case_unfold handleEventFreeing_due due_def using k by simp
  have 6: "?d = (case osTaskFindByTid (mTasks st) (privateEvt_toTid da) of
              None \<Rightarrow> st
            | Some i \<Rightarrow> (runCode (internal_code env) (st \<lparr> mCurEvtEventFreeingInfo := None \<rparr>))
                          \<lparr> mCurEvtEventFreeingInfo := mCurEvtEventFreeingInfo st \<rparr>)"
    by (simp add: deliverPrivateEvt_def Let_def split: option.splits)
  from 0 1 2 5 6 k show ?thesis unfolding Let_def due_def [symmetric] by blast
qed

theorem private_event_free_and_retain_witness:
  "[x \<leftarrow> free_calls (osInternalEvtHandle retain_in_private_env EVT_PRIVATE_EVT private_for_1
        seos_in_pass). fst x = ByPrivateEvt] = [(ByPrivateEvt, CallEventFreeF 200 9)] \<and>
   [x \<leftarrow> free_calls (osInternalEvtHandle retain_in_private_env EVT_PRIVATE_EVT private_for_5
        seos_in_pass). fst x = ByPrivateEvt] = [(ByPrivateEvt, CallEventFreeF 200 9)] \<and>
   fst (osRetainCurrentEvent (runCode [CallRetain]
          (seos_in_pass \<lparr> mCurEvtEventFreeingInfo := None \<rparr>))) = False \<and>
   handed_out (deliverPrivateEvt retain_in_private_env private_for_1 seos_in_pass) = [] \<and>
   mCurEvtEventFreeingInfo (deliverPrivateEvt retain_in_private_env private_for_1 seos_in_pass)
     = Some (TagPtr 100)"
proof -
  have st: "free_calls seos_in_pass = []" "handed_out seos_in_pass = []"
    "mCurEvtEventFreeingInfo seos_in_pass = Some (TagPtr 100)"
    by (simp_all add: seos_in_pass_def seos_full_task_def)
  have due: "freeActionOf (mTasks seos_in_pass) (privateEvt_evtType private_for_1)
               (privateEvt_evtData private_for_1) (privateEvt_evtFreeInfo private_for_1)
             = Some (CallEventFreeF 200 9)"
    "freeActionOf (mTasks seos_in_pass) (privateEvt_evtType private_for_5)
               (privateEvt_evtData private_for_5) (privateEvt_evtFreeInfo private_for_5)
             = Some (CallEventFreeF 200 9)"
    by (simp_all add: freeActionOf_def private_for_1_def private_for_5_def)
  have code: "internal_code retain_in_private_env = [CallRetain] @ [CallRetain]"
    by (simp add: retain_in_private_env_def)
  note t1 = private_event_free_and_retain [of retain_in_private_env private_for_1 seos_in_pass]
  note t5 = private_event_free_and_retain [of retain_in_private_env private_for_5 seos_in_pass]
  note u = Let_def due st option.case filter.simps append_Nil
  have a: "[x \<leftarrow> free_calls (osInternalEvtHandle retain_in_private_env EVT_PRIVATE_EVT
        private_for_1 seos_in_pass). fst x = ByPrivateEvt] = [(ByPrivateEvt, CallEventFreeF 200 9)]"
    using t1 unfolding u by blast
  have b: "[x \<leftarrow> free_calls (osInternalEvtHandle retain_in_private_env EVT_PRIVATE_EVT
        private_for_5 seos_in_pass). fst x = ByPrivateEvt] = [(ByPrivateEvt, CallEventFreeF 200 9)]"
    using t5 unfolding u by blast
  have c: "fst (osRetainCurrentEvent (runCode [CallRetain]
          (seos_in_pass \<lparr> mCurEvtEventFreeingInfo := None \<rparr>))) = False"
    using t1 code unfolding Let_def by blast
  have d: "handed_out (deliverPrivateEvt retain_in_private_env private_for_1 seos_in_pass) = []"
    "mCurEvtEventFreeingInfo (deliverPrivateEvt retain_in_private_env private_for_1 seos_in_pass)
       = Some (TagPtr 100)"
    using t1 unfolding u by blast+
  from a b c d show ?thesis by blast
qed

text \<open>
  C9 as stated fails on both points. A private event whose free-info names task 5 as the
  owner, when no live task has tid 5, is delivered to task 1 and then handleEventFreeing
  only logs an error: no free call is made at all. And the slot is restored before the
  free step of the private-event case: for a private event owned by task 1, the owner's
  handler is called to free the data, its call of osRetainCurrentEvent returns true, and
  the free-info of the action that carries the private event is handed out.
\<close>

theorem private_event_free_and_retain_counterexample:
  "free_calls (osInternalEvtHandle (quiet_env True) EVT_PRIVATE_EVT private_owned_by_5
      seos_in_pass) = [] \<and>
   osInternalEvtHandle retain_on_private_free_env EVT_PRIVATE_EVT private_owned_by_1 seos_in_pass
     = seos_in_pass \<lparr> mCurEvtEventFreeingInfo := None,
                      free_calls := [(ByPrivateEvt, CallAppFreeEvtData 0 400 9)],
                      handed_out := [TagPtr 100] \<rparr>"
proof -
  have d5: "deliverPrivateEvt (quiet_env True) private_owned_by_5 seos_in_pass = seos_in_pass"
    by (simp add: deliverPrivateEvt_def private_owned_by_5_def private_for_1_def seos_in_pass_def
        seos_full_task_def full_task_def quiet_env_def Let_def)
  have d1: "deliverPrivateEvt retain_on_private_free_env private_owned_by_1 seos_in_pass
              = seos_in_pass"
    by (simp add: deliverPrivateEvt_def private_owned_by_1_def private_for_1_def seos_in_pass_def
        seos_full_task_def full_task_def retain_on_private_free_env_def Let_def)
  have a: "free_calls (osInternalEvtHandle (quiet_env True) EVT_PRIVATE_EVT private_owned_by_5
      seos_in_pass) = []"
    unfolding private_case_unfold d5
    by (simp add: private_owned_by_5_def private_for_1_def seos_in_pass_def
        seos_full_task_def full_task_def)
  have b: "osInternalEvtHandle retain_on_private_free_env EVT_PRIVATE_EVT private_owned_by_1
             seos_in_pass
     = seos_in_pass \<lparr> mCurEvtEventFreeingInfo := None,
                      free_calls := [(ByPrivateEvt, CallAppFreeEvtData 0 400 9)],
                      handed_out := [TagPtr 100] \<rparr>"
    unfolding private_case_unfold d1
    by (simp add: private_owned_by_1_def private_for_1_def seos_in_pass_def
        seos_full_task_def full_task_def retain_on_private_free_env_def osRetainCurrentEvent_def)
  from a b show ?thesis by blast
qed

section \<open>Properties of the task table\<close>

subsection \<open>Reading and writing through the pointers\<close>

lemma nth_upd_gen: "xs[k := x] ! j = (if j = k \<and> k < length xs then x else xs ! j)"
  by (cases "k < length xs") (auto simp: nth_list_update list_update_beyond)

lemma slot_upd_simps [simp]:
  "mTaskCnt (slot_upd k f tbl) = mTaskCnt tbl"
  "chunks (slot_upd k f tbl) = chunks tbl"
  "mNextTidInfo (slot_upd k f tbl) = mNextTidInfo tbl"
  "length (slots (slot_upd k f tbl)) = length (slots tbl)"
  by (simp_all add: slot_upd_def)

lemma slot_upd_nth:
  "slots (slot_upd k f tbl) ! j = (if j = k \<and> k < length (slots tbl) then f (slots tbl ! k) else slots tbl ! j)"
  by (simp add: slot_upd_def nth_upd_gen)

lemma events_upd_simps [simp]:
  "mTaskCnt (events_upd p i v tbl) = mTaskCnt tbl"
  "mNextTidInfo (events_upd p i v tbl) = mNextTidInfo tbl"
  "length (slots (events_upd p i v tbl)) = length (slots tbl)"
  by (simp_all add: events_upd_def split: EvtsPtr.splits option.splits)

lemma events_upd_hdr [simp]:
  "slot_tid (slots (events_upd p i v tbl) ! j) = slot_tid (slots tbl ! j)"
  "slot_subbedEvtCount (slots (events_upd p i v tbl) ! j) = slot_subbedEvtCount (slots tbl ! j)"
  "slot_subbedEvtListSz (slots (events_upd p i v tbl) ! j) = slot_subbedEvtListSz (slots tbl ! j)"
  "slot_subbedEvents (slots (events_upd p i v tbl) ! j) = slot_subbedEvents (slots tbl ! j)"
  by (auto simp: events_upd_def nth_upd_gen split: EvtsPtr.splits option.splits)

lemma events_upd_chunks_dom [simp]:
  "chunks (events_upd p i v tbl) a = None \<longleftrightarrow> chunks tbl a = None"
  by (auto simp: events_upd_def split: EvtsPtr.splits option.splits)

lemma events_at_events_upd:
  assumes "\<And>k. p = EmbeddedPtr k \<Longrightarrow> k < length (slots tbl)"
  shows "events_at (events_upd p i v tbl) q =
           (if q = p then (events_at tbl p)[i := v] else events_at tbl q)"
  using assms
  by (cases p; cases q)
     (auto simp: events_at_def events_upd_def nth_upd_gen split: option.splits)

lemma events_at_slot_upd:
  assumes "\<And>s. slot_subbedEventsInt (f s) = slot_subbedEventsInt s"
  shows "events_at (slot_upd k f tbl) q = events_at tbl q"
  using assms by (cases q) (auto simp: events_at_def slot_upd_def nth_upd_gen)

lemma events_at_chunks_upd:
  "q \<noteq> HeapPtr a \<Longrightarrow> events_at (tbl \<lparr> chunks := (chunks tbl)(a := x) \<rparr>) q = events_at tbl q"
  by (cases q) (auto simp: events_at_def)

lemma events_at_heapFree:
  "q \<noteq> p \<Longrightarrow> events_at (heapFree p tbl) q = events_at tbl q"
  by (cases p; cases q) (auto simp: events_at_def heapFree_def)

lemma heapFree_simps [simp]:
  "mTaskCnt (heapFree p tbl) = mTaskCnt tbl"
  "slots (heapFree p tbl) = slots tbl"
  "mNextTidInfo (heapFree p tbl) = mNextTidInfo tbl"
  by (simp_all add: heapFree_def split: EvtsPtr.splits)

lemma list_of_task_of: "list_of (subbedEvents (task_of tbl k)) = events_at tbl (slot_subbedEvents (slots tbl ! k))"
  by (simp add: task_of_def events_at_def split: EvtsPtr.splits)


lemma ptrs_okD:
  assumes "ptrs_ok tbl" "k < mTaskCnt tbl"
  shows "k < length (slots tbl)"
    and "slot_subbedEvents (slots tbl ! k) = EmbeddedPtr k \<or>
         (\<exists>a. slot_subbedEvents (slots tbl ! k) = HeapPtr a \<and> chunks tbl a \<noteq> None)"
    and "\<And>j. j < mTaskCnt tbl \<Longrightarrow> j \<noteq> k \<Longrightarrow>
           slot_subbedEvents (slots tbl ! j) \<noteq> slot_subbedEvents (slots tbl ! k)"
    and "\<And>j. slot_subbedEvents (slots tbl ! k) = EmbeddedPtr j \<Longrightarrow> j = k"
proof -
  from assms show "k < length (slots tbl)" by (simp add: ptrs_ok_def)
  from assms show own: "slot_subbedEvents (slots tbl ! k) = EmbeddedPtr k \<or>
         (\<exists>a. slot_subbedEvents (slots tbl ! k) = HeapPtr a \<and> chunks tbl a \<noteq> None)"
    by (simp add: ptrs_ok_def)
  from assms show "\<And>j. j < mTaskCnt tbl \<Longrightarrow> j \<noteq> k \<Longrightarrow>
           slot_subbedEvents (slots tbl ! j) \<noteq> slot_subbedEvents (slots tbl ! k)"
    by (simp add: ptrs_ok_def)
  from own show "\<And>j. slot_subbedEvents (slots tbl ! k) = EmbeddedPtr j \<Longrightarrow> j = k" by auto
qed

text \<open>Writing one entry of task k's buffer and setting its count, in either order.\<close>

lemma write_entry_view:
  fixes i :: nat and v :: u32 and c :: u16
  assumes ok: "ptrs_ok tbl" and k: "k < mTaskCnt tbl"
  defines "p \<equiv> slot_subbedEvents (slots tbl ! k)"
  defines "tbl' \<equiv> events_upd p i v (slot_upd k (\<lambda>s. s \<lparr> slot_subbedEvtCount := c \<rparr>) tbl)"
  shows "task_of tbl' k = (task_of tbl k)
           \<lparr> subbedEvtCount := c, subbedEvents := list_upd (subbedEvents (task_of tbl k)) i v \<rparr>"
    and "\<And>j. j < mTaskCnt tbl \<Longrightarrow> j \<noteq> k \<Longrightarrow> task_of tbl' j = task_of tbl j"
    and "ptrs_ok tbl'"
    and "mTaskCnt tbl' = mTaskCnt tbl"
    and "\<And>j. slot_tid (slots tbl' ! j) = slot_tid (slots tbl ! j)"
proof -
  note d = ptrs_okD [OF ok k]
  let ?t1 = "slot_upd k (\<lambda>s. s \<lparr> slot_subbedEvtCount := c \<rparr>) tbl"
  have emb: "\<And>k'. p = EmbeddedPtr k' \<Longrightarrow> k' < length (slots ?t1)"
    using d(1,4) by (auto simp: p_def)
  have ev: "events_at tbl' q = (if q = p then (events_at tbl p)[i := v] else events_at tbl q)" for q
    unfolding tbl'_def by (simp add: events_at_slot_upd events_at_events_upd [OF emb])
  have hdr: "slot_subbedEvents (slots tbl' ! j) = slot_subbedEvents (slots tbl ! j)"
    "slot_tid (slots tbl' ! j) = slot_tid (slots tbl ! j)"
    "slot_subbedEvtListSz (slots tbl' ! j) = slot_subbedEvtListSz (slots tbl ! j)"
    "slot_subbedEvtCount (slots tbl' ! j) =
       (if j = k then c else slot_subbedEvtCount (slots tbl ! j))" for j
    using d(1) by (simp_all add: tbl'_def slot_upd_nth)
  show "task_of tbl' k = (task_of tbl k)
           \<lparr> subbedEvtCount := c, subbedEvents := list_upd (subbedEvents (task_of tbl k)) i v \<rparr>"
    using d(2) by (auto simp: task_of_def hdr ev p_def)
  show "task_of tbl' j = task_of tbl j" if "j < mTaskCnt tbl" "j \<noteq> k" for j
    using d(3) [OF that] that by (simp add: task_of_def hdr ev p_def split: EvtsPtr.splits)
  show "mTaskCnt tbl' = mTaskCnt tbl" by (simp add: tbl'_def)
  show "\<And>j. slot_tid (slots tbl' ! j) = slot_tid (slots tbl ! j)" by (rule hdr)
  have mt: "mTaskCnt tbl' = mTaskCnt tbl" "length (slots tbl') = length (slots tbl)"
    by (simp_all add: tbl'_def)
  have chn: "chunks tbl' a = None \<longleftrightarrow> chunks tbl a = None" for a
    by (simp add: tbl'_def)
  show "ptrs_ok tbl'"
    using ok unfolding ptrs_ok_def by (simp only: hdr mt chn) blast
qed

lemma write_entry_view':
  fixes i :: nat and v :: u32
  assumes ok: "ptrs_ok tbl" and k: "k < mTaskCnt tbl"
  defines "p \<equiv> slot_subbedEvents (slots tbl ! k)"
  defines "tbl' \<equiv> slot_upd k (\<lambda>s. s \<lparr> slot_subbedEvtCount := slot_subbedEvtCount s + 1 \<rparr>)
                     (events_upd p i v tbl)"
  shows "task_of tbl' k = (task_of tbl k)
           \<lparr> subbedEvents := list_upd (subbedEvents (task_of tbl k)) i v,
             subbedEvtCount := subbedEvtCount (task_of tbl k) + 1 \<rparr>"
    and "\<And>j. j < mTaskCnt tbl \<Longrightarrow> j \<noteq> k \<Longrightarrow> task_of tbl' j = task_of tbl j"
    and "ptrs_ok tbl'"
    and "mTaskCnt tbl' = mTaskCnt tbl"
    and "\<And>j. slot_tid (slots tbl' ! j) = slot_tid (slots tbl ! j)"
proof -
  note d = ptrs_okD [OF ok k]
  have emb: "\<And>k'. p = EmbeddedPtr k' \<Longrightarrow> k' < length (slots tbl)"
    using d(1,4) by (auto simp: p_def)
  have ev: "events_at tbl' q = (if q = p then (events_at tbl p)[i := v] else events_at tbl q)" for q
    unfolding tbl'_def by (simp add: events_at_slot_upd events_at_events_upd [OF emb])
  have hdr: "slot_subbedEvents (slots tbl' ! j) = slot_subbedEvents (slots tbl ! j)"
    "slot_tid (slots tbl' ! j) = slot_tid (slots tbl ! j)"
    "slot_subbedEvtListSz (slots tbl' ! j) = slot_subbedEvtListSz (slots tbl ! j)"
    "slot_subbedEvtCount (slots tbl' ! j) =
       (if j = k then slot_subbedEvtCount (slots tbl ! k) + 1
        else slot_subbedEvtCount (slots tbl ! j))" for j
    using d(1) by (simp_all add: tbl'_def slot_upd_nth)
  show "task_of tbl' k = (task_of tbl k)
           \<lparr> subbedEvents := list_upd (subbedEvents (task_of tbl k)) i v,
             subbedEvtCount := subbedEvtCount (task_of tbl k) + 1 \<rparr>"
    using d(2) by (auto simp: task_of_def hdr ev p_def)
  show "task_of tbl' j = task_of tbl j" if "j < mTaskCnt tbl" "j \<noteq> k" for j
    using d(3) [OF that] that by (simp add: task_of_def hdr ev p_def split: EvtsPtr.splits)
  show "mTaskCnt tbl' = mTaskCnt tbl" by (simp add: tbl'_def)
  show "\<And>j. slot_tid (slots tbl' ! j) = slot_tid (slots tbl ! j)" by (rule hdr)
  have mt: "mTaskCnt tbl' = mTaskCnt tbl" "length (slots tbl') = length (slots tbl)"
    by (simp_all add: tbl'_def)
  have chn: "chunks tbl' a = None \<longleftrightarrow> chunks tbl a = None" for a
    by (simp add: tbl'_def)
  show "ptrs_ok tbl'"
    using ok unfolding ptrs_ok_def by (simp only: hdr mt chn) blast
qed

text \<open>Moving task k's list into a fresh heap chunk.\<close>

lemma grow_view:
  fixes new :: "u32 list" and z :: u16
  assumes ok: "ptrs_ok tbl" and k: "k < mTaskCnt tbl" and fresh: "chunks tbl a = None"
  defines "p \<equiv> slot_subbedEvents (slots tbl ! k)"
  defines "tblA \<equiv> tbl \<lparr> chunks := (chunks tbl)(a \<mapsto> new) \<rparr>"
  defines "tblF \<equiv> (if p \<noteq> EmbeddedPtr k then heapFree p tblA else tblA)"
  defines "tbl' \<equiv> slot_upd k (\<lambda>s. s \<lparr> slot_subbedEvents := HeapPtr a,
                                       slot_subbedEvtListSz := z \<rparr>) tblF"
  shows "task_of tbl' k = (task_of tbl k) \<lparr> subbedEvents := HeapList new, subbedEvtListSz := z \<rparr>"
    and "\<And>j. j < mTaskCnt tbl \<Longrightarrow> j \<noteq> k \<Longrightarrow> task_of tbl' j = task_of tbl j"
    and "ptrs_ok tbl'"
    and "mTaskCnt tbl' = mTaskCnt tbl"
    and "\<And>j. slot_tid (slots tbl' ! j) = slot_tid (slots tbl ! j)"
proof -
  note d = ptrs_okD [OF ok k]
  have pa: "p \<noteq> HeapPtr a" using d(2) fresh by (auto simp: p_def)
  have slotsF: "slots tblF = slots tbl" "mTaskCnt tblF = mTaskCnt tbl"
    by (simp_all add: tblF_def tblA_def)
  have chF: "chunks tblF a = Some new"
    using pa by (auto simp: tblF_def tblA_def heapFree_def split: EvtsPtr.splits)
  have chO: "chunks tblF b = chunks tbl b" if "HeapPtr b \<noteq> p" "b \<noteq> a" for b
    using that by (auto simp: tblF_def tblA_def heapFree_def split: EvtsPtr.splits)
  have hdr: "slot_subbedEvents (slots tbl' ! j) =
       (if j = k then HeapPtr a else slot_subbedEvents (slots tbl ! j))"
    "slot_tid (slots tbl' ! j) = slot_tid (slots tbl ! j)"
    "slot_subbedEvtListSz (slots tbl' ! j) =
       (if j = k then z else slot_subbedEvtListSz (slots tbl ! j))"
    "slot_subbedEvtCount (slots tbl' ! j) = slot_subbedEvtCount (slots tbl ! j)" for j
    using d(1) by (simp_all add: tbl'_def slot_upd_nth slotsF)
  have ch': "chunks tbl' = chunks tblF" by (simp add: tbl'_def)
  have evE: "events_at tbl' (EmbeddedPtr j) = events_at tbl (EmbeddedPtr j)" for j
    using d(1) by (simp add: events_at_def tbl'_def slot_upd_nth slotsF)
  have evH: "events_at tbl' (HeapPtr b) =
       (if b = a then new else events_at tbl (HeapPtr b))" if "HeapPtr b \<noteq> p" for b
    using that chF chO [of b] by (simp add: events_at_def ch')
  show "task_of tbl' k = (task_of tbl k) \<lparr> subbedEvents := HeapList new, subbedEvtListSz := z \<rparr>"
    using pa evH [of a] by (simp add: task_of_def hdr)
  show oth: "task_of tbl' j = task_of tbl j" if "j < mTaskCnt tbl" "j \<noteq> k" for j
  proof -
    note dj = ptrs_okD [OF ok that(1)]
    from d(3) [OF that] have ne: "slot_subbedEvents (slots tbl ! j) \<noteq> p" by (simp add: p_def)
    from dj(2) show ?thesis
    proof
      assume "slot_subbedEvents (slots tbl ! j) = EmbeddedPtr j"
      then show ?thesis using that by (simp add: task_of_def hdr evE)
    next
      assume "\<exists>b. slot_subbedEvents (slots tbl ! j) = HeapPtr b \<and> chunks tbl b \<noteq> None"
      then obtain b where b: "slot_subbedEvents (slots tbl ! j) = HeapPtr b" "chunks tbl b \<noteq> None"
        by blast
      with fresh have "b \<noteq> a" by auto
      with b ne evH [of b] that show ?thesis by (simp add: task_of_def hdr)
    qed
  qed
  show "mTaskCnt tbl' = mTaskCnt tbl" by (simp add: tbl'_def slotsF)
  show "\<And>j. slot_tid (slots tbl' ! j) = slot_tid (slots tbl ! j)" by (rule hdr)
  show "ptrs_ok tbl'"
    unfolding ptrs_ok_def
  proof (intro conjI allI impI)
    show "mTaskCnt tbl' \<le> length (slots tbl')"
      using ok by (simp add: tbl'_def slotsF ptrs_ok_def)
  next
    fix j assume j: "j < mTaskCnt tbl'"
    then have j': "j < mTaskCnt tbl" by (simp add: tbl'_def slotsF)
    show "slot_subbedEvents (slots tbl' ! j) = EmbeddedPtr j \<or>
          (\<exists>b. slot_subbedEvents (slots tbl' ! j) = HeapPtr b \<and> chunks tbl' b \<noteq> None)"
    proof (cases "j = k")
      case True
      then show ?thesis using chF by (simp add: hdr ch')
    next
      case False
      note dj = ptrs_okD [OF ok j']
      from d(3) [OF j' False] have ne: "slot_subbedEvents (slots tbl ! j) \<noteq> p" by (simp add: p_def)
      from dj(2) show ?thesis
      proof
        assume "slot_subbedEvents (slots tbl ! j) = EmbeddedPtr j"
        then show ?thesis using False by (simp add: hdr)
      next
        assume "\<exists>b. slot_subbedEvents (slots tbl ! j) = HeapPtr b \<and> chunks tbl b \<noteq> None"
        then obtain b where b: "slot_subbedEvents (slots tbl ! j) = HeapPtr b" "chunks tbl b \<noteq> None"
          by blast
        with fresh have "b \<noteq> a" by auto
        with b ne chO [of b] False show ?thesis by (simp add: hdr ch')
      qed
    qed
  next
    fix i j assume ij: "i < mTaskCnt tbl'" "j < mTaskCnt tbl'" "i \<noteq> j"
    then have i': "i < mTaskCnt tbl" and j': "j < mTaskCnt tbl" by (simp_all add: tbl'_def slotsF)
    have nh: "slot_subbedEvents (slots tbl ! m) \<noteq> HeapPtr a" if "m < mTaskCnt tbl" for m
      using ptrs_okD(2) [OF ok that] fresh by auto
    from ok i' j' ij(3) have "slot_subbedEvents (slots tbl ! i) \<noteq> slot_subbedEvents (slots tbl ! j)"
      by (simp add: ptrs_ok_def)
    with nh [OF i'] nh [OF j'] ij(3)
    show "slot_subbedEvents (slots tbl' ! i) \<noteq> slot_subbedEvents (slots tbl' ! j)"
      by (auto simp: hdr)
  qed
qed


lemma task_of_fields [simp]:
  "tid (task_of tbl k) = slot_tid (slots tbl ! k)"
  "subbedEvtCount (task_of tbl k) = slot_subbedEvtCount (slots tbl ! k)"
  "subbedEvtListSz (task_of tbl k) = slot_subbedEvtListSz (slots tbl ! k)"
  by (simp_all add: task_of_def)

text \<open>
  On a table whose live tasks have buffers of their own, an action on task k changes the
  table as evtSubHandle changes the value of task k, and leaves the other tasks alone.
\<close>

lemma evtSubHandle_tbl_view:
  assumes ok: "ptrs_ok tbl" and k: "k < mTaskCnt tbl"
    and fresh: "case newList of None \<Rightarrow> True | Some a \<Rightarrow> chunks tbl a = None"
  shows "task_of (evtSubHandle_tbl newList ty e k tbl) k =
           evtSubHandle (newList \<noteq> None) ty e (task_of tbl k)"
    and "\<And>j. j < mTaskCnt tbl \<Longrightarrow> j \<noteq> k \<Longrightarrow>
           task_of (evtSubHandle_tbl newList ty e k tbl) j = task_of tbl j"
    and "ptrs_ok (evtSubHandle_tbl newList ty e k tbl)"
    and "mTaskCnt (evtSubHandle_tbl newList ty e k tbl) = mTaskCnt tbl"
    and "\<And>j. slot_tid (slots (evtSubHandle_tbl newList ty e k tbl) ! j) = slot_tid (slots tbl ! j)"
proof -
  define T where "T = task_of tbl k"
  define p where "p = slot_subbedEvents (slots tbl ! k)"
  define ev where "ev = events_at tbl p"
  define cnt where "cnt = slot_subbedEvtCount (slots tbl ! k)"
  define sz where "sz = slot_subbedEvtListSz (slots tbl ! k)"
  define i where "i = subbedEvtFind ev (unat cnt) e 0"
  have Tl: "list_of (subbedEvents T) = ev" by (simp add: T_def ev_def p_def list_of_task_of)
  have Tc: "subbedEvtCount T = cnt" "subbedEvtListSz T = sz" by (simp_all add: T_def cnt_def sz_def)
  let ?R = "evtSubHandle_tbl newList ty e k tbl"
  let ?V = "evtSubHandle (newList \<noteq> None) ty e T"
  have all: "task_of ?R k = ?V \<and>
      (\<forall>j. j < mTaskCnt tbl \<longrightarrow> j \<noteq> k \<longrightarrow> task_of ?R j = task_of tbl j) \<and>
      ptrs_ok ?R \<and> mTaskCnt ?R = mTaskCnt tbl \<and>
      (\<forall>j. slot_tid (slots ?R ! j) = slot_tid (slots tbl ! j))"
  proof -
    consider (unsub) "ty = EVT_UNSUBSCRIBE_TO_EVT" "i \<noteq> unat cnt"
      | (sub) "\<not> (ty = EVT_UNSUBSCRIBE_TO_EVT \<and> i \<noteq> unat cnt)"
          "ty = EVT_SUBSCRIBE_TO_EVT" "i = unat cnt"
      | (none) "\<not> (ty = EVT_UNSUBSCRIBE_TO_EVT \<and> i \<noteq> unat cnt)"
          "\<not> (ty = EVT_SUBSCRIBE_TO_EVT \<and> i = unat cnt)"
      by blast
    then show ?thesis
    proof cases
      case unsub
      have R: "?R = events_upd p i (ev ! unat (cnt - 1))
                      (slot_upd k (\<lambda>s. s \<lparr> slot_subbedEvtCount := cnt - 1 \<rparr>) tbl)"
        using unsub unfolding evtSubHandle_tbl_def Let_def i_def ev_def p_def cnt_def
        by simp
      have V: "?V = T \<lparr> subbedEvtCount := cnt - 1,
                        subbedEvents := list_upd (subbedEvents T) i (ev ! unat (cnt - 1)) \<rparr>"
        using unsub unfolding evtSubHandle_def Let_def Tl Tc unfolding i_def by simp
      note w = write_entry_view [where i = i and v = "ev ! unat (cnt - 1)" and c = "cnt - 1",
          OF ok k, folded p_def]
      show ?thesis unfolding R V unfolding T_def using w by blast
    next
      case none
      have R: "?R = tbl"
        using none unfolding evtSubHandle_tbl_def Let_def i_def ev_def p_def cnt_def
        by auto
      have V: "?V = T"
        using none unfolding evtSubHandle_def Let_def Tl Tc unfolding i_def by auto
      show ?thesis unfolding R V unfolding T_def using ok by simp
    next
      case sub
      define newSz :: u32 where "newSz = (ucast sz * 3 + 1) div 2"
      define new where "new = take (unat sz) ev @ replicate (unat newSz - unat sz) 0"
      define tbl1 where "tbl1 =
        (if sz = cnt then
           (case newList of
              None \<Rightarrow> tbl
            | Some a \<Rightarrow>
                slot_upd k (\<lambda>s. s \<lparr> slot_subbedEvents := HeapPtr a,
                                      slot_subbedEvtListSz := ucast newSz \<rparr>)
                  (if p \<noteq> EmbeddedPtr k
                   then heapFree p (tbl \<lparr> chunks := (chunks tbl)(a \<mapsto> new) \<rparr>)
                   else tbl \<lparr> chunks := (chunks tbl)(a \<mapsto> new) \<rparr>))
         else tbl)"
      define T1 where "T1 =
        (if sz = cnt then
           if newList \<noteq> None
           then T \<lparr> subbedEvents := HeapList new, subbedEvtListSz := ucast newSz \<rparr>
           else T
         else T)"
      have R: "?R = (if slot_subbedEvtListSz (slots tbl1 ! k) > slot_subbedEvtCount (slots tbl1 ! k)
                     then slot_upd k (\<lambda>s. s \<lparr> slot_subbedEvtCount := slot_subbedEvtCount s + 1 \<rparr>)
                            (events_upd (slot_subbedEvents (slots tbl1 ! k))
                               (unat (slot_subbedEvtCount (slots tbl1 ! k))) e tbl1)
                     else tbl1)"
        using sub
        unfolding evtSubHandle_tbl_def Let_def tbl1_def new_def newSz_def i_def ev_def p_def
          cnt_def sz_def
        by (simp split: option.splits)
      have V: "?V = (if subbedEvtListSz T1 > subbedEvtCount T1
                     then T1 \<lparr> subbedEvents := list_upd (subbedEvents T1) (unat (subbedEvtCount T1)) e,
                               subbedEvtCount := subbedEvtCount T1 + 1 \<rparr>
                     else T1)"
        using sub
        unfolding evtSubHandle_def Let_def Tl Tc T1_def new_def newSz_def unfolding i_def
        by auto
      have one: "task_of tbl1 k = T1 \<and>
          (\<forall>j. j < mTaskCnt tbl \<longrightarrow> j \<noteq> k \<longrightarrow> task_of tbl1 j = task_of tbl j) \<and>
          ptrs_ok tbl1 \<and> mTaskCnt tbl1 = mTaskCnt tbl \<and>
          (\<forall>j. slot_tid (slots tbl1 ! j) = slot_tid (slots tbl ! j))"
      proof (cases "sz = cnt \<and> newList \<noteq> None")
        case False
        then have "tbl1 = tbl" "T1 = T" by (auto simp: tbl1_def T1_def)
        then show ?thesis using ok by (simp add: T_def)
      next
        case True
        then obtain a where a: "newList = Some a" by auto
        from True a have t1: "tbl1 = slot_upd k (\<lambda>s. s \<lparr> slot_subbedEvents := HeapPtr a,
                                      slot_subbedEvtListSz := ucast newSz \<rparr>)
                  (if p \<noteq> EmbeddedPtr k
                   then heapFree p (tbl \<lparr> chunks := (chunks tbl)(a \<mapsto> new) \<rparr>)
                   else tbl \<lparr> chunks := (chunks tbl)(a \<mapsto> new) \<rparr>)"
          by (simp add: tbl1_def)
        from True have v1: "T1 = T \<lparr> subbedEvents := HeapList new, subbedEvtListSz := ucast newSz \<rparr>"
          by (simp add: T1_def)
        from fresh a have fa: "chunks tbl a = None" by simp
        note g = grow_view [where new = new and z = "ucast newSz", OF ok k fa, folded p_def]
        show ?thesis unfolding t1 v1 unfolding T_def using g by blast
      qed
      then have ok1: "ptrs_ok tbl1" and k1: "k < mTaskCnt tbl1" and tk: "task_of tbl1 k = T1"
        using k by simp_all
      have f1: "slot_subbedEvtListSz (slots tbl1 ! k) = subbedEvtListSz T1"
        "slot_subbedEvtCount (slots tbl1 ! k) = subbedEvtCount T1"
        unfolding tk [symmetric] by simp_all
      show ?thesis
      proof (cases "subbedEvtListSz T1 > subbedEvtCount T1")
        case False
        then show ?thesis unfolding R V f1 using one by simp
      next
        case True
        note w = write_entry_view' [where i = "unat (subbedEvtCount T1)" and v = e, OF ok1 k1]
        have R': "?R = slot_upd k (\<lambda>s. s \<lparr> slot_subbedEvtCount := slot_subbedEvtCount s + 1 \<rparr>)
                            (events_upd (slot_subbedEvents (slots tbl1 ! k))
                               (unat (subbedEvtCount T1)) e tbl1)"
          unfolding R f1 using True by simp
        have V': "?V = T1 \<lparr> subbedEvents := list_upd (subbedEvents T1) (unat (subbedEvtCount T1)) e,
                               subbedEvtCount := subbedEvtCount T1 + 1 \<rparr>"
          unfolding V using True by simp
        have a: "task_of ?R k = ?V" unfolding R' V' using w(1) by (simp add: tk)
        have b: "\<forall>j. j < mTaskCnt tbl \<longrightarrow> j \<noteq> k \<longrightarrow> task_of ?R j = task_of tbl j"
          unfolding R' using w(2) one by simp
        have c: "ptrs_ok ?R" unfolding R' by (rule w(3))
        have d: "mTaskCnt ?R = mTaskCnt tbl" unfolding R' using w(4) one by simp
        have e: "\<forall>j. slot_tid (slots ?R ! j) = slot_tid (slots tbl ! j)"
          unfolding R' using w(5) one by simp
        from a b c d e show ?thesis by blast
      qed
    qed
  qed
  from all show "task_of ?R k = evtSubHandle (newList \<noteq> None) ty e (task_of tbl k)"
    by (simp add: T_def)
  from all show "\<And>j. j < mTaskCnt tbl \<Longrightarrow> j \<noteq> k \<Longrightarrow> task_of ?R j = task_of tbl j" by blast
  from all show "ptrs_ok ?R" by blast
  from all show "mTaskCnt ?R = mTaskCnt tbl" by blast
  from all show "\<And>j. slot_tid (slots ?R ! j) = slot_tid (slots tbl ! j)" by blast
qed


lemma tasks_of_nth [simp]:
  "length (tasks_of tbl) = mTaskCnt tbl"
  "k < mTaskCnt tbl \<Longrightarrow> tasks_of tbl ! k = task_of tbl k"
  by (simp_all add: tasks_of_def)

lemma osTaskFindByTid_Some:
  "osTaskFindByTid xs t = Some i \<Longrightarrow> i < length xs \<and> tid (xs ! i) = t"
proof (induction xs arbitrary: i)
  case Nil
  then show ?case by simp
next
  case (Cons x xs)
  then show ?case by (auto split: if_splits)
qed


text \<open>The list of tasks by value, as the kernel state has it, follows the table.\<close>

lemma osInternalEvtHandle_tbl_refines:
  assumes ok: "ptrs_ok tbl"
    and fresh: "case newList of None \<Rightarrow> True | Some a \<Rightarrow> chunks tbl a = None"
    and ty: "ty = EVT_SUBSCRIBE_TO_EVT \<or> ty = EVT_UNSUBSCRIBE_TO_EVT"
    and st: "mTasks st = tasks_of tbl"
    and env: "alloc_ok env = (newList \<noteq> None)"
  shows "tasks_of (osInternalEvtHandle_tbl newList ty (evtSub_tid da) (evtSub_evt da) tbl)
           = mTasks (osInternalEvtHandle env ty da st)"
proof (cases "osTaskFindByTid (tasks_of tbl) (evtSub_tid da)")
  case None
  with ty st show ?thesis by (auto simp: osInternalEvtHandle_tbl_def osInternalEvtHandle_def)
next
  case (Some j)
  from osTaskFindByTid_Some [OF Some] have jl: "j < mTaskCnt tbl" by simp
  let ?tbl' = "evtSubHandle_tbl newList ty (evtSub_evt da) j tbl"
  note v = evtSubHandle_tbl_view [where newList = newList and ty = ty and e = "evtSub_evt da",
      OF ok jl fresh]
  have L: "osInternalEvtHandle_tbl newList ty (evtSub_tid da) (evtSub_evt da) tbl = ?tbl'"
    using ty Some by (simp add: osInternalEvtHandle_tbl_def)
  have R: "mTasks (osInternalEvtHandle env ty da st) =
             (tasks_of tbl)[j := evtSubHandle (newList \<noteq> None) ty (evtSub_evt da) (task_of tbl j)]"
    using osInternalEvtHandle_subscribe [OF ty, of st da j env] Some st env jl by simp
  show ?thesis unfolding L R
  proof (rule nth_equalityI)
    show "length (tasks_of ?tbl') = length ((tasks_of tbl)
            [j := evtSubHandle (newList \<noteq> None) ty (evtSub_evt da) (task_of tbl j)])"
      using v(4) by simp
  next
    fix i assume "i < length (tasks_of ?tbl')"
    then have i: "i < mTaskCnt tbl" using v(4) by simp
    show "tasks_of ?tbl' ! i = (tasks_of tbl)
            [j := evtSubHandle (newList \<noteq> None) ty (evtSub_evt da) (task_of tbl j)] ! i"
    proof (cases "i = j")
      case True
      with v(1,4) jl show ?thesis by simp
    next
      case False
      with v(2) [OF i] v(4) i show ?thesis by simp
    qed
  qed
qed





text \<open>
  Two calls of osStartApp on the zeroed table give the two tasks of \<open>two_task_table\<close>.
\<close>

lemma upt_0_2: "[0 ..< 2] = [0, Suc 0]"
  by (simp add: upt_rec)

lemma two_task_table_started:
  "osStartApp 2 6 1 0x0FFFFFFF True True zeroed_table
     = Some (True, zeroed_table \<lparr> slots := [started_slot 0 2, zeroed_TaskSlot], mTaskCnt := 1,
                                  mNextTidInfo := 2 \<rparr>)"
  "osStartApp 2 6 1 0x0FFFFFFF True True
     (zeroed_table \<lparr> slots := [started_slot 0 2, zeroed_TaskSlot], mTaskCnt := 1,
                      mNextTidInfo := 2 \<rparr>)
     = Some (True, two_task_table)"
proof -
  show "osStartApp 2 6 1 0x0FFFFFFF True True zeroed_table
     = Some (True, zeroed_table \<lparr> slots := [started_slot 0 2, zeroed_TaskSlot], mTaskCnt := 1,
                                  mNextTidInfo := 2 \<rparr>)"
    apply (simp add: osStartApp_def osLoadApp_def zeroed_table_def Let_def slot_upd_def
        tasks_of_def task_of_def)
    apply (subst osGetFreeTid.simps)
    apply (simp add: nextTid_def Let_def zeroed_TaskSlot_def started_slot_def slot_upd_def)
    done
  show "osStartApp 2 6 1 0x0FFFFFFF True True
     (zeroed_table \<lparr> slots := [started_slot 0 2, zeroed_TaskSlot], mTaskCnt := 1,
                      mNextTidInfo := 2 \<rparr>)
     = Some (True, two_task_table)"
    apply (simp add: osStartApp_def osLoadApp_def zeroed_table_def Let_def slot_upd_def
        tasks_of_def task_of_def upt_0_2)
    apply (subst osGetFreeTid.simps)
    apply (simp add: nextTid_def Let_def zeroed_TaskSlot_def started_slot_def two_task_table_def
        slot_upd_def)
    done
qed





text \<open>
  osStartApp on a slot whose count is 0, as it is in a slot never used before: the pointers
  stay separate, the fields of the new task fit together and its list is empty.
\<close>

lemma osStartApp_fresh_slot:
  assumes ok: "ptrs_ok tbl"
    and room: "mTaskCnt tbl < max_tasks" "max_tasks \<le> length (slots tbl)"
    and zero: "slot_subbedEvtCount (slots tbl ! mTaskCnt tbl) = 0"
    and emb: "length (slot_subbedEventsInt (slots tbl ! mTaskCnt tbl)) = max_embedded"
    and sz: "0 < max_embedded" "max_embedded < 65536"
    and res: "osStartApp max_tasks max_embedded first_tid last_tid True True tbl = Some (True, tbl')"
  shows "ptrs_ok tbl'"
    and "mTaskCnt tbl' = mTaskCnt tbl + 1"
    and "task_ok (task_of tbl' (mTaskCnt tbl))"
    and "subscribed (task_of tbl' (mTaskCnt tbl)) = []"
    and "\<And>j. j < mTaskCnt tbl \<Longrightarrow> task_of tbl' j = task_of tbl j"
proof -
  define k where "k = mTaskCnt tbl"
  define tbl2 where "tbl2 = slot_upd k (\<lambda>s. s \<lparr> slot_subbedEvtListSz := of_nat max_embedded,
                                          slot_subbedEvents := EmbeddedPtr k \<rparr>)
                              (tbl \<lparr> mTaskCnt := mTaskCnt tbl + 1 \<rparr>)"
  from res room(1) obtain t where
    t': "tbl' = slot_upd k (\<lambda>s. s \<lparr> slot_tid := t \<rparr>) (tbl2 \<lparr> mNextTidInfo := t \<rparr>)"
    by (auto simp: osStartApp_def osLoadApp_def Let_def k_def tbl2_def split: option.splits)
  have kl: "k < length (slots tbl)" using room by (simp add: k_def)
  have sl: "slots tbl' ! j =
      (if j = k then (slots tbl ! k) \<lparr> slot_subbedEvtListSz := of_nat max_embedded,
                                       slot_subbedEvents := EmbeddedPtr k, slot_tid := t \<rparr>
       else slots tbl ! j)" for j
    using kl by (simp add: t' tbl2_def slot_upd_def nth_upd_gen)
  have ch: "chunks tbl' = chunks tbl" by (simp add: t' tbl2_def slot_upd_def)
  have mt: "mTaskCnt tbl' = k + 1" "length (slots tbl') = length (slots tbl)"
    by (simp_all add: t' tbl2_def slot_upd_def k_def)
  have ev: "events_at tbl' q = events_at tbl q" for q
    by (cases q) (auto simp: events_at_def sl ch)
  show "mTaskCnt tbl' = mTaskCnt tbl + 1" using mt by (simp add: k_def)
  have un: "unat (of_nat max_embedded :: u16) = max_embedded"
    using sz(2) by (simp add: unat_of_nat)
  show "task_ok (task_of tbl' (mTaskCnt tbl))"
    using zero emb sz(1) un
    by (simp add: task_ok_def task_of_def sl ev k_def [symmetric] events_at_def)
  show "subscribed (task_of tbl' (mTaskCnt tbl)) = []"
    using zero by (simp add: subscribed_def sl k_def [symmetric])
  show "task_of tbl' j = task_of tbl j" if "j < mTaskCnt tbl" for j
    using that by (simp add: task_of_def sl ev k_def split: EvtsPtr.splits)
  show "ptrs_ok tbl'"
    unfolding ptrs_ok_def
  proof (intro conjI allI impI)
    show "mTaskCnt tbl' \<le> length (slots tbl')" using kl by (simp add: mt)
  next
    fix j assume "j < mTaskCnt tbl'"
    then have "j < k \<or> j = k" by (auto simp: mt)
    then show "slot_subbedEvents (slots tbl' ! j) = EmbeddedPtr j \<or>
          (\<exists>a. slot_subbedEvents (slots tbl' ! j) = HeapPtr a \<and> chunks tbl' a \<noteq> None)"
      using ptrs_okD(2) [OF ok, of j] by (auto simp: sl ch k_def)
  next
    fix i j assume ij: "i < mTaskCnt tbl'" "j < mTaskCnt tbl'" "i \<noteq> j"
    have own: "slot_subbedEvents (slots tbl ! m) \<noteq> EmbeddedPtr k" if "m < k" for m
      using ptrs_okD(2) [OF ok, of m] that by (auto simp: k_def)
    from ij have "(i < k \<and> j < k) \<or> (i = k \<and> j < k) \<or> (i < k \<and> j = k)" by (auto simp: mt)
    then show "slot_subbedEvents (slots tbl' ! i) \<noteq> slot_subbedEvents (slots tbl' ! j)"
      using ij(3) own [of i] own [of j] ok
      by (auto simp: sl ptrs_ok_def k_def)
  qed
qed





lemma replicate_6: "replicate 6 x = [x, x, x, x, x, x]"
  by (simp add: numeral_eq_Suc)

lemma full_table_reached:
  "evtSubHandleAll [(None, EVT_SUBSCRIBE_TO_EVT, 2, 301), (None, EVT_SUBSCRIBE_TO_EVT, 2, 302),
                    (None, EVT_SUBSCRIBE_TO_EVT, 2, 303), (None, EVT_SUBSCRIBE_TO_EVT, 2, 304),
                    (None, EVT_SUBSCRIBE_TO_EVT, 2, 305), (None, EVT_SUBSCRIBE_TO_EVT, 2, 306)]
     two_task_table = full_table"
  by (simp add: osInternalEvtHandle_tbl_def evtSubHandle_tbl_def tasks_of_def task_of_def
      two_task_table_def started_slot_def full_table_def upt_0_2 events_at_def events_upd_def
      slot_upd_def Let_def subbedEvtFind.simps replicate_6)







text \<open>
  The start states of the next two lemmas are reached from started tasks: seven subscribes
  of one task, the last of which moves its list to the heap chunk 0, and one subscribe of
  the second of two tasks.
\<close>

lemma replicate_3: "replicate 3 x = [x, x, x]"
  by (simp add: numeral_eq_Suc)

lemma evtSubHandleAll_append:
  "evtSubHandleAll (as @ bs) tbl = evtSubHandleAll bs (evtSubHandleAll as tbl)"
  by (induction as arbitrary: tbl) auto

lemma grown_table_reached:
  "evtSubHandleAll ([(None, EVT_SUBSCRIBE_TO_EVT, 2, 301), (None, EVT_SUBSCRIBE_TO_EVT, 2, 302),
                    (None, EVT_SUBSCRIBE_TO_EVT, 2, 303), (None, EVT_SUBSCRIBE_TO_EVT, 2, 304),
                    (None, EVT_SUBSCRIBE_TO_EVT, 2, 305), (None, EVT_SUBSCRIBE_TO_EVT, 2, 306)] @
                    [(Some 0, EVT_SUBSCRIBE_TO_EVT, 2, 307)])
     (zeroed_table \<lparr> slots := [started_slot 0 2, zeroed_TaskSlot], mTaskCnt := 1,
                      mNextTidInfo := 2 \<rparr>) = grown_table"
proof -
  let ?mid = "zeroed_table \<lparr> slots := [(started_slot 0 2) \<lparr> slot_subbedEvtCount := 6,
                    slot_subbedEventsInt := [301, 302, 303, 304, 305, 306] \<rparr>, zeroed_TaskSlot],
                mTaskCnt := 1, mNextTidInfo := 2 \<rparr>"
  have 1: "evtSubHandleAll [(None, EVT_SUBSCRIBE_TO_EVT, 2, 301), (None, EVT_SUBSCRIBE_TO_EVT, 2, 302),
                    (None, EVT_SUBSCRIBE_TO_EVT, 2, 303), (None, EVT_SUBSCRIBE_TO_EVT, 2, 304),
                    (None, EVT_SUBSCRIBE_TO_EVT, 2, 305), (None, EVT_SUBSCRIBE_TO_EVT, 2, 306)]
     (zeroed_table \<lparr> slots := [started_slot 0 2, zeroed_TaskSlot], mTaskCnt := 1,
                      mNextTidInfo := 2 \<rparr>) = ?mid"
    by (simp add: osInternalEvtHandle_tbl_def evtSubHandle_tbl_def tasks_of_def task_of_def
      zeroed_table_def started_slot_def events_at_def events_upd_def
      slot_upd_def Let_def subbedEvtFind.simps replicate_6)
  have f: "osTaskFindByTid (tasks_of ?mid) 2 = Some 0"
    by (simp add: tasks_of_def task_of_def zeroed_table_def started_slot_def)
  have i: "subbedEvtFind [301, 302, 303, 304, 305, 306] 6 307 0 = 6"
    by (simp add: subbedEvtFind.simps)
  have sz: "unat ((ucast (6 :: u16) * 3 + 1) div 2 :: u32) - unat (6 :: u16) = 3"
    "(ucast ((ucast (6 :: u16) * 3 + 1) div 2 :: u32) :: u16) = 9"
    by simp_all
  have "evtSubHandle_tbl (Some 0) EVT_SUBSCRIBE_TO_EVT 307 0 ?mid = grown_table"
    by (simp add: evtSubHandle_tbl_def Let_def zeroed_table_def started_slot_def events_at_def i
        sz slot_upd_def events_upd_def heapFree_def replicate_3 grown_table_def)
  with f have 2: "osInternalEvtHandle_tbl (Some 0) EVT_SUBSCRIBE_TO_EVT 2 307 ?mid = grown_table"
    by (simp add: osInternalEvtHandle_tbl_def)
  show ?thesis by (simp only: evtSubHandleAll_append 1) (simp only: evtSubHandleAll.simps 2)
qed

lemma one_sub_table_reached:
  "evtSubHandleAll [(None, EVT_SUBSCRIBE_TO_EVT, 3, 301)] two_task_table = one_sub_table"
  by (simp add: osInternalEvtHandle_tbl_def evtSubHandle_tbl_def tasks_of_def task_of_def
      two_task_table_def started_slot_def one_sub_table_def one_sub_slot_def upt_0_2
      events_at_def events_upd_def slot_upd_def Let_def subbedEvtFind.simps replicate_6)

text \<open>
  The hypotheses of the theorem on the start state are needed. osStartApp does not assign
  subbedEvtCount: a task started in a slot whose last task had seven subscriptions has
  count 7 with capacity 6, and its subscribe changes nothing although heapAlloc would
  succeed.
\<close>

lemma osStartApp_reused_slot:
  "osStopTask (Some 0) grown_table = (True, grown_table \<lparr> mTaskCnt := 0 \<rparr>)"
  "osStartApp 2 6 1 0x0FFFFFFF True True (grown_table \<lparr> mTaskCnt := 0 \<rparr>) = Some (True, reused_table)"
  "ptrs_ok reused_table"
  "\<not> task_ok (task_of reused_table 0)"
  "osInternalEvtHandle_tbl (Some 1) EVT_SUBSCRIBE_TO_EVT 3 400 reused_table = reused_table"
proof -
  show "osStopTask (Some 0) grown_table = (True, grown_table \<lparr> mTaskCnt := 0 \<rparr>)"
    by (simp add: osStopTask_def osUnloadApp_def grown_table_def Let_def)
  show "osStartApp 2 6 1 0x0FFFFFFF True True (grown_table \<lparr> mTaskCnt := 0 \<rparr>) = Some (True, reused_table)"
    apply (simp add: osStartApp_def osLoadApp_def grown_table_def Let_def slot_upd_def
        tasks_of_def task_of_def)
    apply (subst osGetFreeTid.simps)
    apply (simp add: nextTid_def Let_def reused_table_def grown_table_def slot_upd_def)
    done
  show "ptrs_ok reused_table"
    by (simp add: ptrs_ok_def reused_table_def grown_table_def)
  show "\<not> task_ok (task_of reused_table 0)"
    by (simp add: task_ok_def task_of_def reused_table_def grown_table_def)
  let ?xs = "[301, 302, 303, 304, 305, 306] :: u32 list"
  define r where "r = subbedEvtFind ?xs 7 400 0"
  have b: "r \<le> 7" and fnd: "r < 7 \<Longrightarrow> ?xs ! r = 400"
    using subbedEvtFind_bounds [of 0 7 ?xs 400] subbedEvtFind_found [of 0 7 ?xs 400]
    unfolding r_def by simp_all
  have "\<not> r < 6"
  proof
    assume "r < 6"
    then have "r = 0 \<or> r = 1 \<or> r = 2 \<or> r = 3 \<or> r = 4 \<or> r = 5" by arith
    then have "?xs ! r \<noteq> 400" by auto
    with fnd \<open>r < 6\<close> show False by simp
  qed
  with b have "r = 6 \<or> r = 7" by arith
  then have i: "subbedEvtFind ?xs 7 400 0 = 6 \<or> subbedEvtFind ?xs 7 400 0 = 7"
    unfolding r_def .
  have f: "osTaskFindByTid (tasks_of reused_table) 3 = Some 0"
    by (simp add: tasks_of_def task_of_def reused_table_def grown_table_def)
  have "evtSubHandle_tbl (Some 1) EVT_SUBSCRIBE_TO_EVT 400 0 reused_table = reused_table"
    using i
    by (auto simp: evtSubHandle_tbl_def Let_def reused_table_def grown_table_def events_at_def)
  with f show "osInternalEvtHandle_tbl (Some 1) EVT_SUBSCRIBE_TO_EVT 3 400 reused_table = reused_table"
    by (simp add: osInternalEvtHandle_tbl_def)
qed

text \<open>
  The memcpy of osUnloadApp copies the pointer: the task moved from slot 1 to slot 0 still
  points to the embedded array of slot 1, which osStartApp then gives to the next task. The
  actions of the new task (tid 4) rewrite the list of the moved task (tid 3).
\<close>

lemma osUnloadApp_shares_buffer:
  "osStopTask (Some 0) one_sub_table
     = (True, one_sub_table \<lparr> slots := [one_sub_slot 3, one_sub_slot 3], mTaskCnt := 1 \<rparr>)"
  "osStartApp 2 6 1 0x0FFFFFFF True True
     (one_sub_table \<lparr> slots := [one_sub_slot 3, one_sub_slot 3], mTaskCnt := 1 \<rparr>)
     = Some (True, aliased_table)"
  "\<not> ptrs_ok aliased_table"
  "subscribed (task_of aliased_table 0) = [301]"
  "subscribed (task_of aliased_table 1) = [301]"
  "subscribed (task_of (evtSubHandleAll [(None, EVT_UNSUBSCRIBE_TO_EVT, 4, 301),
      (None, EVT_SUBSCRIBE_TO_EVT, 4, 400)] aliased_table) 0) = [400]"
proof -
  show "osStopTask (Some 0) one_sub_table
     = (True, one_sub_table \<lparr> slots := [one_sub_slot 3, one_sub_slot 3], mTaskCnt := 1 \<rparr>)"
    by (simp add: osStopTask_def osUnloadApp_def one_sub_table_def two_task_table_def Let_def)
  show "osStartApp 2 6 1 0x0FFFFFFF True True
     (one_sub_table \<lparr> slots := [one_sub_slot 3, one_sub_slot 3], mTaskCnt := 1 \<rparr>)
     = Some (True, aliased_table)"
    apply (simp add: osStartApp_def osLoadApp_def one_sub_table_def two_task_table_def Let_def
        slot_upd_def tasks_of_def task_of_def upt_0_2 one_sub_slot_def)
    apply (subst osGetFreeTid.simps)
    apply (simp add: nextTid_def Let_def aliased_table_def two_task_table_def slot_upd_def
        one_sub_slot_def)
    done
  show "\<not> ptrs_ok aliased_table"
    by (auto simp: ptrs_ok_def aliased_table_def two_task_table_def one_sub_slot_def
        intro!: exI [of _ 0])
  show "subscribed (task_of aliased_table 0) = [301]" "subscribed (task_of aliased_table 1) = [301]"
    by (simp_all add: subscribed_def task_of_def aliased_table_def two_task_table_def
        one_sub_slot_def events_at_def)
  have f: "osTaskFindByTid (tasks_of tbl) 4 = Some 1"
    if "mTaskCnt tbl = 2" "slot_tid (slots tbl ! 0) = 3" "slot_tid (slots tbl ! 1) = 4" for tbl
    using that by (simp add: tasks_of_def upt_0_2)
  have f1: "subbedEvtFind [301, 0, 0, 0, 0, 0] (Suc 0) 301 0 = 0"
    by (subst subbedEvtFind.simps) simp
  have f0: "subbedEvtFind [301, 0, 0, 0, 0, 0] 0 400 0 = 0"
    by (subst subbedEvtFind.simps) simp
  define t1 where "t1 = aliased_table \<lparr> slots := [one_sub_slot 3,
      (one_sub_slot 4) \<lparr> slot_subbedEvtCount := 0 \<rparr>] \<rparr>"
  define t2 where "t2 = aliased_table \<lparr> slots := [one_sub_slot 3,
      (one_sub_slot 4) \<lparr> slot_subbedEventsInt := [400, 0, 0, 0, 0, 0] \<rparr>] \<rparr>"
  have 1: "osInternalEvtHandle_tbl None EVT_UNSUBSCRIBE_TO_EVT 4 301 aliased_table = t1"
    unfolding osInternalEvtHandle_tbl_def
    by (simp add: f aliased_table_def two_task_table_def one_sub_slot_def)
       (simp add: evtSubHandle_tbl_def Let_def events_at_def f1 slot_upd_def events_upd_def
          t1_def aliased_table_def two_task_table_def one_sub_slot_def)
  have 2: "osInternalEvtHandle_tbl None EVT_SUBSCRIBE_TO_EVT 4 400 t1 = t2"
    unfolding osInternalEvtHandle_tbl_def
    by (simp add: f t1_def aliased_table_def two_task_table_def one_sub_slot_def)
       (simp add: evtSubHandle_tbl_def Let_def events_at_def f0 slot_upd_def events_upd_def
          t2_def aliased_table_def two_task_table_def one_sub_slot_def)
  show "subscribed (task_of (evtSubHandleAll [(None, EVT_UNSUBSCRIBE_TO_EVT, 4, 301),
      (None, EVT_SUBSCRIBE_TO_EVT, 4, 400)] aliased_table) 0) = [400]"
    by (simp add: 1 2)
       (simp add: t2_def subscribed_def task_of_def aliased_table_def two_task_table_def
          one_sub_slot_def events_at_def)
qed

end
